theory Spec2Isabelle
  imports Main "HOL-Library.Word" "HOL-Library.Signed_Division"
begin

unbundle bit_operations_syntax

section \<open>Machine types\<close>

type_synonym u8 = "8 word"
type_synonym u16 = "16 word"
type_synonym u32 = "32 word"

text \<open>
  \<open>uint8_t\<close> and \<open>uint16_t\<close> are words; \<open>int16_t whole_temp\<close> is a 16-bit word read with
  \<open>sint\<close>. The \<open>int32_t\<close> arithmetic of the Fahrenheit conversion is done on \<open>int\<close>, with the
  wrap-around to 32 bits written out after every operation by \<open>int32\<close>, and C's division,
  which truncates towards zero, is \<open>sdiv\<close>. The counters \<open>int n\<close>, \<open>int x\<close> and \<open>int numROMs\<close> stay
  between -1 and 8, far from the 16-bit range of \<open>int\<close> on the STM8, and are values of
  \<open>int\<close>.
\<close>

definition int32 :: "int \<Rightarrow> int" where
  "int32 v = signed_take_bit 31 v"

section \<open>The 1-Wire line\<close>

text \<open>
  The pin registers \<open>PC_ODR\<close>, \<open>PC_DDR\<close>, \<open>PC_IDR\<close> and the delay \<open>wait_timer\<close> belong to the
  hardware. A \<open>wire\<close> gives, for a state \<open>'b\<close> of whatever hangs on the line, the three slots
  the driver produces on it:
  \<^item> \<open>w_reset\<close>: the 500us low pulse of \<open>reset_pulse\<close>; it returns the value of \<open>PC_IDR\<close> read
    100us after the line is released;
  \<^item> \<open>w_read\<close>: the read slot of \<open>read_bit\<close>; it returns the value of \<open>PC_IDR\<close> read 15us after
    the start of the slot;
  \<^item> \<open>w_write\<close>: the write slot of \<open>write_bit\<close>; the argument is the bit sent, \<open>True\<close> for
    the short low time (a 1), \<open>False\<close> for the low time extended by \<open>wait_timer(60)\<close> (a 0).
  Durations are not part of the model.
\<close>

record 'b wire =
  w_reset :: "'b \<Rightarrow> u8 \<times> 'b"
  w_read :: "'b \<Rightarrow> u8 \<times> 'b"
  w_write :: "bool \<Rightarrow> 'b \<Rightarrow> 'b"

text \<open>\<open>int reset_pulse()\<close>: \<open>rtn = 0; if (PC_IDR & 0x40) rtn = 1;\<close>\<close>

definition reset_pulse :: "'b wire \<Rightarrow> 'b \<Rightarrow> int \<times> 'b" where
  "reset_pulse W b =
     (let (PC_IDR, b') = w_reset W b;
          rtn = (if PC_IDR AND 0x40 \<noteq> 0 then 1 else 0)
      in (rtn, b'))"

text \<open>\<open>int read_bit()\<close>: \<open>bit = 0; ... if (PC_IDR & 0x40) bit = 1;\<close>\<close>

definition read_bit :: "'b wire \<Rightarrow> 'b \<Rightarrow> int \<times> 'b" where
  "read_bit W b =
     (let (PC_IDR, b') = w_read W b;
          bit = (if PC_IDR AND 0x40 \<noteq> 0 then 1 else 0)
      in (bit, b'))"

text \<open>\<open>void write_bit(uint8_t transmit_bit)\<close>: \<open>if (!(transmit_bit)) wait_timer(60);\<close>\<close>

definition write_bit :: "'b wire \<Rightarrow> u8 \<Rightarrow> 'b \<Rightarrow> 'b" where
  "write_bit W transmit_bit b = w_write W (\<not> (transmit_bit = 0)) b"

text \<open>
  The loop \<open>j = 0x01; while (1) { body; if (j == 0x80) break; j = (uint8_t)(j << 1); }\<close>
  of \<open>transmit_byte\<close> and of the scratchpad read in \<open>get_temperature\<close>. From an arbitrary
  \<open>j\<close> it need not end (\<open>j = 0\<close> never reaches \<open>0x80\<close>), so not returning is \<open>None\<close>.
\<close>

partial_function (option) mask_loop :: "(u8 \<Rightarrow> 'a \<Rightarrow> 'a) \<Rightarrow> u8 \<Rightarrow> 'a \<Rightarrow> 'a option" where
  "mask_loop body j st =
     (let st' = body j st
      in if j = 0x80 then Some st' else mask_loop body (push_bit 1 j) st')"

text \<open>From \<open>j = 0x01\<close> the body runs for these eight masks, in this order.\<close>

definition masks :: "u8 list" where
  "masks = [0x01, 0x02, 0x04, 0x08, 0x10, 0x20, 0x40, 0x80]"

text \<open>\<open>void transmit_byte(uint8_t transmit_value)\<close>\<close>

definition transmit_body :: "'b wire \<Rightarrow> u8 \<Rightarrow> u8 \<Rightarrow> 'b \<Rightarrow> 'b" where
  "transmit_body W transmit_value j b =
     (if j AND transmit_value \<noteq> 0 then write_bit W 1 b else write_bit W 0 b)"

definition transmit_byte :: "'b wire \<Rightarrow> u8 \<Rightarrow> 'b \<Rightarrow> 'b" where
  "transmit_byte W transmit_value b = fold (transmit_body W transmit_value) masks b"

section \<open>Dallas CRC-8\<close>

text \<open>The inner \<open>for (j = 0; j < 8; ++j)\<close> of \<open>dallas_crc8\<close>, one round and eight of them.\<close>

definition crc_round :: "u8 \<times> u8 \<Rightarrow> u8 \<times> u8" where
  "crc_round p =
     (let (crc, inbyte) = p;
          mix = (crc XOR inbyte) AND 0x01;
          crc1 = drop_bit 1 crc;
          crc2 = (if mix \<noteq> 0 then crc1 XOR 0x8C else crc1)
      in (crc2, drop_bit 1 inbyte))"

definition crc_byte :: "u8 \<Rightarrow> u8 \<Rightarrow> u8" where
  "crc_byte crc inbyte = fst ((crc_round ^^ 8) (crc, inbyte))"

text \<open>\<open>uint8_t dallas_crc8(uint8_t *data, uint8_t size)\<close> on the first \<open>size\<close> bytes of \<open>data\<close>.\<close>

definition dallas_crc8 :: "u8 list \<Rightarrow> nat \<Rightarrow> u8" where
  "dallas_crc8 data sz = foldl crc_byte 0 (take sz data)"


section \<open>Globals\<close>

text \<open>
  The globals of \<open>DS18B20.c\<close>. \<open>ROM\<close> is declared \<open>uint8_t ROM[8]\<close> and is a list of 8 bytes.
  \<open>FoundROM\<close> is declared \<open>uint8_t FoundROM[5][8]\<close>: rows 0 to 4 are the array, and a row index
  outside 0..4 stands for the memory that a write \<open>FoundROM[numROMs][m]\<close> reaches beyond it, so
  that such a write stays visible in the model. \<open>DS18B20_scratch\<close> is declared
  \<open>uint8_t DS18B20_scratch[5][2]\<close> outside these sources and is read and written by row and
  column; column 0 holds the low byte of a sample, column 1 the high byte.
\<close>

record ds =
  ROM :: "u8 list"
  lastDiscrep :: u8
  doneFlag :: u8
  FoundROM :: "int \<Rightarrow> u8 list"
  numROMs :: int
  DS18B20_scratch :: "nat \<Rightarrow> nat \<Rightarrow> u8"

text \<open>The globals at start-up, all zero.\<close>

definition startup :: ds where
  "startup = \<lparr>ROM = replicate 8 0, lastDiscrep = 0, doneFlag = 0,
              FoundROM = (\<lambda>row. replicate 8 0), numROMs = 0,
              DS18B20_scratch = (\<lambda>device_num i. 0)\<rparr>"

section \<open>Temperature formatting\<close>

definition dec_temp :: "char list" where
  "dec_temp = ''0112334456678899''"

text \<open>
  The branch \<open>degCorF == 0\<close> of \<open>convert_temperature\<close>, on \<open>lsb = DS18B20_scratch[device_num][0]\<close>
  and \<open>msb = DS18B20_scratch[device_num][1]\<close>: the sign character, \<open>whole_temp\<close> and
  \<open>decimal_temp\<close>.
\<close>

definition celsius_parts :: "u8 \<Rightarrow> u8 \<Rightarrow> char \<times> u16 \<times> u8" where
  "celsius_parts msb lsb =
     (let whole_temp = (ucast msb :: u16);
          whole_temp = push_bit 8 whole_temp;
          whole_temp = whole_temp OR ucast lsb;
          whole_temp = whole_temp AND 0x07f0;
          whole_temp = drop_bit 4 whole_temp;
          decimal_temp = lsb AND 0x0f
      in if msb AND 0x80 = 0x80
         then (CHR ''-'', whole_temp XOR 0x007f, ((decimal_temp XOR 0x0f) + 1) AND 0x0f)
         else (CHR '' '', whole_temp, decimal_temp))"

text \<open>The branch \<open>degCorF != 0\<close>: \<open>F_temp0\<close> is an \<open>int16_t\<close>, \<open>F_temp1\<close> and \<open>F_temp2\<close> are \<open>int32_t\<close>.\<close>

definition raw_temp :: "u8 \<Rightarrow> u8 \<Rightarrow> u16" where
  "raw_temp msb lsb = push_bit 8 (ucast msb) OR ucast lsb"

definition fahrenheit_parts :: "u8 \<Rightarrow> u8 \<Rightarrow> char \<times> u16 \<times> u8" where
  "fahrenheit_parts msb lsb =
     (let F_temp0 = sint (raw_temp msb lsb);
          F_temp1 = int32 F_temp0;
          F_temp1 = int32 (int32 (F_temp1 + 880) * 180);
          F_temp2 = int32 (F_temp1 sdiv 100);
          F_temp2 = int32 (F_temp2 - 1072);
          whole_temp = (word_of_int (int32 (F_temp2 sdiv 16)) :: u16);
          decimal_temp = (word_of_int (F_temp2 AND 0xf) :: u8)
      in if F_temp2 < 0
         then (CHR ''-'', whole_temp * (- 1), ((decimal_temp XOR 0xf) + 1) AND 0x0f)
         else (CHR '' '', whole_temp, decimal_temp))"

text \<open>
  \<open>void convert_temperature(uint8_t device_num, uint8_t degCorF)\<close>; the result is the string
  left in \<open>OctetArray\<close>. \<open>emb_itoa\<close> is declared in \<open>httpd.h\<close> and defined outside these
  sources: the parameter \<open>emb_itoa\<close> gives the characters that
  \<open>emb_itoa(whole_temp, OctetArray, 10, 3)\<close> leaves in \<open>OctetArray\<close>, of which the function
  copies the first three. Its first parameter is a \<open>uint32_t\<close>, to which \<open>whole_temp\<close> is
  converted.
\<close>

definition convert_temperature :: "(u32 \<Rightarrow> string) \<Rightarrow> ds \<Rightarrow> nat \<Rightarrow> u8 \<Rightarrow> string" where
  "convert_temperature emb_itoa s device_num degCorF =
     (if DS18B20_scratch s device_num 1 \<noteq> 0x55
      then
        (let (sign, whole_temp, decimal_temp) =
               (if degCorF = 0
                then celsius_parts (DS18B20_scratch s device_num 1)
                       (DS18B20_scratch s device_num 0)
                else fahrenheit_parts (DS18B20_scratch s device_num 1)
                       (DS18B20_scratch s device_num 0));
             OctetArray = emb_itoa (scast whole_temp)
         in [sign, OctetArray ! 0, OctetArray ! 1, OctetArray ! 2, CHR ''.'',
             dec_temp ! unat decimal_temp])
      else ''------'')"

section \<open>Device search\<close>

text \<open>
  The variables of the \<open>do { ... } while (n < 8)\<close> loop of \<open>Next\<close>: the line, \<open>ROM\<close>, \<open>m\<close>, \<open>n\<close>,
  \<open>k\<close> and \<open>discrepMarker\<close>.
\<close>

type_synonym 'b search_vars = "'b \<times> u8 list \<times> u8 \<times> int \<times> u8 \<times> u8"

text \<open>
  The choice of the output bit \<open>g\<close> and of \<open>discrepMarker\<close> from the two bits read (\<open>x\<close>);
  \<open>ld\<close> is the value of \<open>lastDiscrep\<close>, which the loop does not change, and \<open>rom\<close> that of \<open>ROM\<close>:
  \<^verbatim>\<open>
  if (x > 0) g = (uint8_t)(x >> 1);
  else {
    if (m < lastDiscrep) g = (uint8_t)((ROM[n] & k) > 0);
    else g = (uint8_t)(m == lastDiscrep);
    if (g == 0) discrepMarker = m;
  }\<close>
\<close>

definition choose_bit :: "u8 \<Rightarrow> int \<Rightarrow> u8 list \<Rightarrow> u8 \<Rightarrow> int \<Rightarrow> u8 \<Rightarrow> u8 \<Rightarrow> u8 \<times> u8" where
  "choose_bit ld x rom m n k discrepMarker =
     (if x > 0 then (word_of_int (drop_bit 1 x), discrepMarker)
      else
        (let g = (if m < ld
                  then (if rom ! nat n AND k \<noteq> 0 then 1 else 0)
                  else (if m = ld then 1 else 0))
         in (g, if g = 0 then m else discrepMarker)))"

text \<open>One pass through the body of the loop; the first component tells whether it left by \<open>break\<close>.\<close>

definition Next_body :: "'b wire \<Rightarrow> u8 \<Rightarrow> 'b search_vars \<Rightarrow> bool \<times> 'b search_vars" where
  "Next_body W ld v =
     (let (b, rom, m, n, k, discrepMarker) = v;
          x = (0 :: int);
          (r1, b) = read_bit W b;
          x = (if r1 = 1 then 2 else x);
          (r2, b) = read_bit W b;
          x = (if r2 = 1 then x OR 1 else x)
      in if x = 3 then (True, (b, rom, m, n, k, discrepMarker))
         else
           (let (g, discrepMarker) = choose_bit ld x rom m n k discrepMarker;
                rom = (if g = 1 then rom[nat n := rom ! nat n OR k]
                       else rom[nat n := rom ! nat n AND NOT k]);
                b = write_bit W g b;
                m = m + 1;
                k = push_bit 1 k;
                (n, k) = (if k = 0 then (n + 1, k + 1) else (n, k))
            in (False, (b, rom, m, n, k, discrepMarker))))"

text \<open>
  The number of further shifts \<open>k << 1\<close> that leave \<open>k\<close> non-zero, at most 8; it bounds the
  passes of the loop between two increments of \<open>n\<close>.
\<close>

definition shifts_left :: "u8 \<Rightarrow> nat" where
  "shifts_left k = length (filter (\<lambda>i. push_bit i k \<noteq> 0) [0 ..< 8])"

function Next_loop :: "'b wire \<Rightarrow> u8 \<Rightarrow> 'b search_vars \<Rightarrow> 'b search_vars" where
  "Next_loop W ld v =
     (let (brk, v') = Next_body W ld v
      in if brk then v'
         else if fst (snd (snd (snd v'))) < 8 then Next_loop W ld v'
         else v')"
  by pat_completeness auto
termination
proof (relation "measure (\<lambda>(W, ld, b, rom, m, n, k, discrepMarker).
                   nat (8 - n) * 9 + shifts_left k)", goal_cases)
  case 1
  show ?case by simp
next
  case (2 W ld v x brk v')
  obtain b rom m n k mk where v: "v = (b, rom, m, n, k, mk)"
    by (cases v) auto
  obtain b' rom' m' n' k' mk' where v': "v' = (b', rom', m', n', k', mk')"
    by (cases v') auto
  have one: "shifts_left 1 = 8"
    by (simp add: shifts_left_def upt_rec [of _ 8] push_bit_eq_mult)
  have dec: "shifts_left (push_bit 1 k) < shifts_left k" if "push_bit 1 k \<noteq> 0"
  proof -
    define P where "P = (\<lambda>i. push_bit i k \<noteq> 0)"
    have P0: "P 0" using that by (auto simp: P_def)
    have P8: "\<not> P 8" by (simp add: P_def)
    have a: "shifts_left k = length (filter P [0 ..< 8])"
      by (simp only: shifts_left_def P_def)
    have "shifts_left (push_bit 1 k) = length (filter (\<lambda>i. P (Suc i)) [0 ..< 8])"
      by (simp only: shifts_left_def P_def push_bit_push_bit Suc_eq_plus1)
    also have "\<dots> = length (filter P (map Suc [0 ..< 8]))"
      by (simp only: filter_map o_def length_map)
    also have "map Suc [0 ..< 8] = [1 ..< 8] @ [8]"
      by (simp add: map_Suc_upt upt_rec [of _ 9] upt_rec [of _ 8])
    finally have b: "shifts_left (push_bit 1 k) = length (filter P [1 ..< 8])"
      using P8 by simp
    have "[0 ..< 8] = 0 # [1 ..< 8]"
      by (simp add: upt_rec [of 0 8])
    then have "shifts_left k = Suc (length (filter P [1 ..< 8]))"
      using P0 a by simp
    with b show ?thesis by simp
  qed
  from 2 have body: "Next_body W ld v = (False, v')" and n': "n' < 8"
    by (simp_all add: v')
  from body have "(n' = n + 1 \<and> k' = 1 \<and> push_bit 1 k = 0) \<or> (n' = n \<and> k' = push_bit 1 k \<and> k' \<noteq> 0)"
    by (auto simp: Next_body_def v v' Let_def split: prod.splits if_splits)
  then show ?case
  proof
    assume "n' = n + 1 \<and> k' = 1 \<and> push_bit 1 k = 0"
    with n' show ?thesis by (simp add: v v' one)
  next
    assume "n' = n \<and> k' = push_bit 1 k \<and> k' \<noteq> 0"
    with n' dec [of ] show ?thesis by (auto simp: v v')
  qed
qed

text \<open>
  \<open>uint8_t Next(void)\<close>. After the loop the function compares the CRC of \<open>ROM[0..7]\<close> with
  \<open>ROM[8]\<close>, the byte one past the end of \<open>ROM\<close>. What that read returns is fixed by where the
  linker puts the globals, not by this file: the parameter \<open>ROM8\<close> gives it from the globals
  at the time of the read.
\<close>

definition Next :: "'b wire \<Rightarrow> (ds \<Rightarrow> u8) \<Rightarrow> 'b \<times> ds \<Rightarrow> u8 \<times> 'b \<times> ds" where
  "Next W ROM8 p =
     (let (b, s) = p;
          (rp, b) = reset_pulse W b
      in if rp \<noteq> 0 \<or> doneFlag s \<noteq> 0 then (0, b, s\<lparr>lastDiscrep := 0\<rparr>)
         else
           (let b = transmit_byte W 0xF0 b;
                (b, rom, m, n, k, discrepMarker) =
                   Next_loop W (lastDiscrep s) (b, ROM s, 1, 0, 1, 0);
                s = s\<lparr>ROM := rom\<rparr>;
                crc = dallas_crc8 (ROM s) 8
            in if m < 65 \<or> crc \<noteq> ROM8 s then (0, b, s\<lparr>lastDiscrep := 0\<rparr>)
               else (1, b, s\<lparr>lastDiscrep := discrepMarker,
                              doneFlag := (if discrepMarker = 0 then 1 else 0)\<rparr>)))"

text \<open>\<open>uint8_t First(void)\<close>\<close>

definition First :: "'b wire \<Rightarrow> (ds \<Rightarrow> u8) \<Rightarrow> 'b \<times> ds \<Rightarrow> u8 \<times> 'b \<times> ds" where
  "First W ROM8 p = (let (b, s) = p in Next W ROM8 (b, s\<lparr>lastDiscrep := 0, doneFlag := 0\<rparr>))"

text \<open>
  The loop \<open>do { numROMs++; for (m = 0; m < 8; m++) FoundROM[numROMs][m] = ROM[m]; }
  while (Next() && (numROMs < 5))\<close> of \<open>FindDevices\<close>.
\<close>

definition store_ROM :: "ds \<Rightarrow> ds" where
  "store_ROM s =
     (let s = s\<lparr>numROMs := numROMs s + 1\<rparr>
      in s\<lparr>FoundROM := (FoundROM s)(numROMs s := map (\<lambda>m. ROM s ! m) [0 ..< 8])\<rparr>)"

function FindDevices_loop :: "'b wire \<Rightarrow> (ds \<Rightarrow> u8) \<Rightarrow> 'b \<times> ds \<Rightarrow> 'b \<times> ds" where
  "FindDevices_loop W ROM8 p =
     (let (b, s) = p;
          s = store_ROM s;
          (nxt, b, s') = Next W ROM8 (b, s)
      in if nxt \<noteq> 0 \<and> numROMs s' < 5 then FindDevices_loop W ROM8 (b, s') else (b, s'))"
  by pat_completeness auto
termination
proof (relation "measure (\<lambda>(W, ROM8, b, s). nat (5 - numROMs s))", goal_cases)
  case 1
  show ?case by simp
next
  case (2 W ROM8 p x b s s1 r nxt q b' s')
  have "numROMs (snd (snd (Next W ROM8 (b, store_ROM s)))) = numROMs (store_ROM s)"
    by (simp add: Next_def Let_def split_beta)
  also have "\<dots> = numROMs s + 1"
    by (simp add: store_ROM_def Let_def)
  finally have a: "numROMs (snd (snd (Next W ROM8 (b, store_ROM s)))) = numROMs s + 1" .
  from 2 have "Next W ROM8 (b, store_ROM s) = (nxt, b', s')" and "p = (b, s)" and "numROMs s' < 5"
    by auto
  with a show ?case
    by simp
qed

text \<open>\<open>void FindDevices(void)\<close>\<close>

definition FindDevices :: "'b wire \<Rightarrow> (ds \<Rightarrow> u8) \<Rightarrow> 'b \<times> ds \<Rightarrow> 'b \<times> ds" where
  "FindDevices W ROM8 p =
     (let (b, s) = p;
          s = s\<lparr>numROMs := - 1\<rparr>;
          (rp, b) = reset_pulse W b
      in if rp = 0
         then (let (found, b, s) = First W ROM8 (b, s)
               in if found \<noteq> 0 then FindDevices_loop W ROM8 (b, s) else (b, s))
         else (b, s))"

section \<open>Temperature sampling\<close>

text \<open>
  The body of the bit loop that reads one scratchpad byte in \<open>get_temperature\<close>:
  \<open>if (read_bit() == 1) DS18B20_scratch[device_num][i] |= j;
  else DS18B20_scratch[device_num][i] &= (uint8_t)~j;\<close>
\<close>

definition read_scratch_body :: "'b wire \<Rightarrow> u8 \<Rightarrow> 'b \<times> u8 \<Rightarrow> 'b \<times> u8" where
  "read_scratch_body W j p =
     (let (b, v) = p;
          (bit, b) = read_bit W b
      in (b, if bit = 1 then v OR j else v AND NOT j))"

definition read_scratch_byte :: "'b wire \<Rightarrow> nat \<Rightarrow> nat \<Rightarrow> 'b \<times> ds \<Rightarrow> 'b \<times> ds" where
  "read_scratch_byte W device_num i p =
     (let (b, s) = p;
          (b, v) = fold (read_scratch_body W) masks (b, DS18B20_scratch s device_num i)
      in (b, s\<lparr>DS18B20_scratch :=
                 (DS18B20_scratch s)(device_num := (DS18B20_scratch s device_num)(i := v))\<rparr>))"

text \<open>\<open>transmit_byte(0x55); for (i = 0; i < 8; i++) transmit_byte(FoundROM[device_num][i]);\<close>\<close>

definition match_ROM :: "'b wire \<Rightarrow> ds \<Rightarrow> nat \<Rightarrow> 'b \<Rightarrow> 'b" where
  "match_ROM W s device_num b =
     fold (\<lambda>i. transmit_byte W (FoundROM s (int device_num) ! i)) [0 ..< 8]
       (transmit_byte W 0x55 b)"

text \<open>
  The block guarded by \<open>if (device_num <= numROMs)\<close>. The value of the second \<open>reset_pulse()\<close>
  is not used by the source.
\<close>

definition sample_device :: "'b wire \<Rightarrow> nat \<Rightarrow> 'b \<times> ds \<Rightarrow> 'b \<times> ds" where
  "sample_device W device_num p =
     (let (b, s) = p;
          b = match_ROM W s device_num b;
          b = transmit_byte W 0xbe b;
          (b, s) = fold (read_scratch_byte W device_num) [0 ..< 2] (b, s);
          (rp, b) = reset_pulse W b;
          b = match_ROM W s device_num b;
          b = transmit_byte W 0x44 b
      in (b, s))"

text \<open>
  \<open>void get_temperature()\<close>: the loop \<open>for (device_num = 0; device_num < 5; device_num++)\<close>.
  \<open>device_num\<close> is a \<open>uint8_t\<close> that stays below 6. The first component of the result is
  \<open>Some device_num\<close> when the function left by \<open>if (reset_pulse()) return;\<close> in the pass for
  \<open>device_num\<close>, and \<open>None\<close> when the loop ran to its end.
\<close>

function get_temperature_loop :: "'b wire \<Rightarrow> nat \<Rightarrow> 'b \<times> ds \<Rightarrow> nat option \<times> 'b \<times> ds" where
  "get_temperature_loop W device_num p =
     (if device_num < 5
      then
        (let (b, s) = p;
             (rp, b) = reset_pulse W b
         in if rp \<noteq> 0 then (Some device_num, b, s)
            else
              (let (b, s) = (if int device_num \<le> numROMs s
                             then sample_device W device_num (b, s) else (b, s))
               in get_temperature_loop W (device_num + 1) (b, s)))
      else (None, p))"
  by pat_completeness auto
termination
  by (relation "measure (\<lambda>(W, device_num, p). 5 - device_num)") auto

definition get_temperature :: "'b wire \<Rightarrow> 'b \<times> ds \<Rightarrow> nat option \<times> 'b \<times> ds" where
  "get_temperature W p = get_temperature_loop W 0 p"

text \<open>
  The line and the globals at the moment the pass for \<open>device_num\<close> begins, when the
  \<open>reset_pulse()\<close> at the start of every pass before it returned 0: each of those passes
  ran \<open>reset_pulse()\<close> and then the block guarded by \<open>if (device_num <= numROMs)\<close>.
  \<open>get_temperature_loop_passes\<close> below proves that the loop gets there.
\<close>

fun before_pass :: "'b wire \<Rightarrow> nat \<Rightarrow> 'b \<times> ds \<Rightarrow> 'b \<times> ds" where
  "before_pass W 0 p = p"
| "before_pass W (Suc device_num) p =
     (let (b, s) = before_pass W device_num p;
          (rp, b) = reset_pulse W b
      in if int device_num \<le> numROMs s then sample_device W device_num (b, s) else (b, s))"

text \<open>The \<open>reset_pulse()\<close> at the start of every pass before the one for \<open>device_num\<close> returned 0.\<close>

fun answered :: "'b wire \<Rightarrow> nat \<Rightarrow> 'b \<times> ds \<Rightarrow> bool" where
  "answered W 0 p = True"
| "answered W (Suc device_num) p =
     (answered W device_num p \<and> fst (reset_pulse W (fst (before_pass W device_num p))) = 0)"

text \<open>
  The read loop of one scratchpad byte started on a byte of zeros: the line after the eight
  read slots, and the byte they deliver. \<open>read_scratch_fresh\<close> below proves that the loop
  leaves this byte whatever \<open>DS18B20_scratch[device_num][i]\<close> held before.
\<close>

definition scratch_read :: "'b wire \<Rightarrow> 'b \<Rightarrow> 'b \<times> u8" where
  "scratch_read W b = fold (read_scratch_body W) masks (b, 0)"

text \<open>
  The line when the first scratchpad byte of \<open>device_num\<close> is about to be read, in a pass
  that begins with the line at \<open>b\<close>: after \<open>reset_pulse()\<close>, the match_ROM bytes and
  \<open>transmit_byte(0xbe)\<close>.
\<close>

definition read_begin :: "'b wire \<Rightarrow> ds \<Rightarrow> nat \<Rightarrow> 'b \<Rightarrow> 'b" where
  "read_begin W s device_num b =
     transmit_byte W 0xbe (match_ROM W s device_num (snd (reset_pulse W b)))"

section \<open>Reference notions of the specification\<close>

text \<open>
  A device asserts presence by holding the line low in the presence window: bit 6 of
  \<open>PC_IDR\<close>, the pin of the line, reads 0.
\<close>

definition presence_asserted :: "u8 \<Rightarrow> bool" where
  "presence_asserted PC_IDR = (PC_IDR AND 0x40 = 0)"

text \<open>
  The Celsius rule as the specification words it: for a negative sample, two's-complement
  the combined whole and fraction value (bits 0 to 10: invert, add 1), then split it into
  whole degrees (bits 4 to 10) and the fractional nibble (bits 0 to 3).
\<close>

definition celsius_twos_complement :: "u8 \<Rightarrow> u8 \<Rightarrow> char \<times> u16 \<times> u8" where
  "celsius_twos_complement msb lsb =
     (let combined = raw_temp msb lsb AND 0x07ff
      in if bit msb 7
         then (let combined = (NOT combined + 1) AND 0x07ff
               in (CHR ''-'', drop_bit 4 combined, ucast (combined AND 0x0f)))
         else (CHR '' '', drop_bit 4 combined, ucast (combined AND 0x0f)))"


text \<open>
  A real reading is a 12-bit value sign-extended to 16 bits: bits 11 to 15 all carry the
  sign.
\<close>

definition real_reading :: "u16 \<Rightarrow> bool" where
  "real_reading raw =
     (bit raw 11 = bit raw 15 \<and> bit raw 12 = bit raw 15 \<and> bit raw 13 = bit raw 15
      \<and> bit raw 14 = bit raw 15)"

section \<open>A simulated bus\<close>

text \<open>
  Modelled from the spec: the devices on the line are hardware, not code of these sources.
  The specification describes them for the search: after a reset and the Search command
  (\<open>0xF0\<close>, least significant bit first) every device takes part; in a pair of read slots
  the line carries the wired AND of the participating devices' next identifier bit and
  then of its complement; the bit the master writes back makes the devices whose bit
  differs drop out for the rest of the pass. The line reads low on bit 6 of \<open>PC_IDR\<close> when
  some device pulls it low, and a reset is answered when at least one device is there.
\<close>

text \<open>The 64 bits of an identifier in the order of the search: byte 0 first, bit 0 first.\<close>

definition id_bits :: "u8 list \<Rightarrow> bool list" where
  "id_bits rom = map (\<lambda>i. bit (rom ! (i div 8)) (i mod 8)) [0 ..< 8 * length rom]"

record sim =
  devices :: "u8 list list"
  active :: "bool list list"
  complement :: bool
  command :: "bool list"
  resets :: nat

text \<open>
  \<open>devices\<close> are the identifiers on the bus, \<open>active\<close> the identifier bits still to come of
  each device taking part in the running search, \<open>complement\<close> tells that the next read slot
  carries complements, \<open>command\<close> is what has been written of the command byte since the
  last reset, and \<open>resets\<close> counts the resets seen.
\<close>

text \<open>The devices that sent \<open>g\<close> stay in, and move on to their next bit.\<close>

definition sub :: "bool \<Rightarrow> bool list list \<Rightarrow> bool list list" where
  "sub g A = map tl (filter (\<lambda>d. d \<noteq> [] \<and> hd d = g) A)"

definition sim_reset :: "sim \<Rightarrow> u8 \<times> sim" where
  "sim_reset b =
     (if devices b = [] then 0x40 else 0x00,
      b\<lparr>active := [], complement := False, command := [], resets := resets b + 1\<rparr>)"

definition sim_read :: "sim \<Rightarrow> u8 \<times> sim" where
  "sim_read b =
     (if list_all (\<lambda>d. d = [] \<or> hd d \<noteq> complement b) (active b) then 0x40 else 0x00,
      b\<lparr>complement := \<not> complement b\<rparr>)"

definition sim_write :: "bool \<Rightarrow> sim \<Rightarrow> sim" where
  "sim_write g b =
     (if length (command b) < 8
      then (let c = command b @ [g]
            in b\<lparr>active := (if c = id_bits [0xF0] then map id_bits (devices b) else []),
                 complement := False, command := c\<rparr>)
      else b\<lparr>active := sub g (active b), complement := False\<rparr>)"

definition sim_wire :: "sim wire" where
  "sim_wire = \<lparr>w_reset = sim_reset, w_read = sim_read, w_write = sim_write\<rparr>"

text \<open>A bus with the given devices on it, before anything has happened.\<close>

definition bus_of :: "u8 list list \<Rightarrow> sim" where
  "bus_of D = \<lparr>devices = D, active = [], complement = False, command = [], resets = 0\<rparr>"

text \<open>The table that \<open>FindDevices\<close> leaves: the rows \<open>FoundROM[0]\<close> to \<open>FoundROM[numROMs]\<close>.\<close>

definition found :: "ds \<Rightarrow> u8 list list" where
  "found s = map (FoundROM s) [0 .. numROMs s]"

section \<open>The search as a walk through the tree of identifiers\<close>

text \<open>
  One pass of the search on the bits of the participating devices \<open>A\<close>, from bit position
  \<open>p + 1\<close> on, for \<open>n\<close> more bits: \<open>L\<close> is \<open>lastDiscrep\<close>, \<open>r\<close> the bits of \<open>ROM\<close> and \<open>mk\<close> the
  discrepancy marker. It follows the loop of \<open>Next\<close> on the simulated bus, as
  \<open>Next_loop_sim\<close> below proves.
\<close>

fun walk :: "nat \<Rightarrow> nat \<Rightarrow> nat \<Rightarrow> bool list list \<Rightarrow> bool list \<times> nat \<Rightarrow> bool list \<times> nat" where
  "walk L p 0 A (r, mk) = (r, mk)"
| "walk L p (Suc n) A (r, mk) =
     (let ones = list_all (\<lambda>d. hd d) A;
          zeros = list_all (\<lambda>d. \<not> hd d) A;
          g = (if ones then True else if zeros then False
               else if Suc p < L then r ! p else Suc p = L);
          mk' = (if \<not> ones \<and> \<not> zeros \<and> \<not> g then Suc p else mk)
      in walk L (Suc p) n (sub g A) (r[p := g], mk'))"

text \<open>The identifiers of \<open>A\<close> (bit lists of length \<open>n\<close>) in the order of the tree, 0 before 1.\<close>

fun leaves :: "nat \<Rightarrow> bool list list \<Rightarrow> bool list list" where
  "leaves 0 A = [[]]"
| "leaves (Suc n) A =
     (if sub False A = [] then [] else map ((#) False) (leaves n (sub False A)))
     @ (if sub True A = [] then [] else map ((#) True) (leaves n (sub True A)))"

text \<open>
  The last position on the way to the identifier \<open>e\<close> at which the devices disagree and \<open>e\<close>
  has a 0, counted from \<open>p\<close>; \<open>mk\<close> when there is none.
\<close>

fun mark :: "nat \<Rightarrow> bool list list \<Rightarrow> bool list \<Rightarrow> nat \<Rightarrow> nat" where
  "mark p A [] mk = mk"
| "mark p A (g # e) mk =
     mark (Suc p) (sub g A) e (if \<not> g \<and> sub True A \<noteq> [] then Suc p else mk)"

text \<open>Eight bits back to a byte, and a list of bits back to bytes.\<close>

definition rom_of :: "bool list \<Rightarrow> u8 list" where
  "rom_of bits = map (\<lambda>i. horner_sum of_bool 2 (take 8 (drop (8 * i) bits))) [0 ..< length bits div 8]"

text \<open>
  The identifiers of the devices \<open>D\<close> in the order in which the search meets them: the order
  of the tree, with the bits taken from the first bit of byte 0 on.
\<close>

definition search_order :: "u8 list list \<Rightarrow> u8 list list" where
  "search_order D = map rom_of (leaves 64 (map id_bits D))"

text \<open>The discrepancy marker of the pass that finds the \<open>i\<close>-th identifier of that order.\<close>

definition marker_at :: "u8 list list \<Rightarrow> nat \<Rightarrow> nat" where
  "marker_at D i = mark 0 (map id_bits D) (leaves 64 (map id_bits D) ! i) 0"

text \<open>
  The search state after the pass that found the \<open>i\<close>-th identifier: \<open>ROM\<close> holds it,
  \<open>lastDiscrep\<close> its marker, and \<open>doneFlag\<close> is set when that marker is 0.
\<close>

definition found_at :: "u8 list list \<Rightarrow> nat \<Rightarrow> ds \<Rightarrow> bool" where
  "found_at D i s \<longleftrightarrow>
     ROM s = search_order D ! i \<and> unat (lastDiscrep s) = marker_at D i
     \<and> doneFlag s = (if marker_at D i = 0 then 1 else 0)"

section \<open>Example lines\<close>

text \<open>
  A line on which every sample of the pin reads low: some device answers every reset, and
  in every pair of read slots both the bit and its complement are pulled low (a
  discrepancy). The state is the list of the bits written so far.
\<close>

definition discrepant :: "bool list wire" where
  "discrepant = \<lparr>w_reset = (\<lambda>l. (0x00, l)), w_read = (\<lambda>l. (0x00, l)),
                 w_write = (\<lambda>g l. l @ [g])\<rparr>"

text \<open>
  A line that answers the first \<open>k\<close> resets and none after them, and on which every bit
  read is 1. The state is the number of resets so far, and the number of write slots that
  came after a reset went unanswered.
\<close>

definition flaky :: "nat \<Rightarrow> (nat \<times> nat) wire" where
  "flaky k = \<lparr>w_reset = (\<lambda>(n, w). (if n < k then 0x00 else 0x40, (n + 1, w))),
              w_read = (\<lambda>l. (0x40, l)),
              w_write = (\<lambda>g (n, w). (n, if k < n then w + 1 else w))\<rparr>"

text \<open>The globals after a search that found three devices, with no sample taken yet.\<close>

definition three_found :: ds where
  "three_found = startup\<lparr>numROMs := 2\<rparr>"

section \<open>Example devices\<close>

text \<open>
  Six identifiers of family \<open>0x28\<close> whose last byte is the CRC-8 of the seven before it, so
  that the CRC-8 of all eight bytes is 0.
\<close>

definition sensors :: "u8 list list" where
  "sensors = [[0x28, 1, 0, 0, 0, 0, 0, 0x29], [0x28, 2, 0, 0, 0, 0, 0, 0x70],
              [0x28, 3, 0, 0, 0, 0, 0, 0x47], [0x28, 4, 0, 0, 0, 0, 0, 0xC2],
              [0x28, 5, 0, 0, 0, 0, 0, 0xF5], [0x28, 6, 0, 0, 0, 0, 0, 0xAC]]"



section \<open>Properties\<close>

declare Next_loop.simps [simp del] FindDevices_loop.simps [simp del]
  get_temperature_loop.simps [simp del]

subsection \<open>The bit loops\<close>

lemma mask_loop_from_1: "mask_loop body 0x01 st = Some (fold body masks st)"
  by (simp add: mask_loop.simps masks_def Let_def)

subsection \<open>Reset and presence\<close>

text \<open>
  C6, as the code has it: \<open>reset_pulse\<close> returns 0 when a device asserted presence in the
  sample window (the line read low) and 1 when none did. The function says "0 = device(s)
  present", and its callers read a non-zero value as "no devices".
\<close>

theorem reset_pulse_zero_iff_presence:
  "fst (reset_pulse W b) = (if presence_asserted (fst (w_reset W b)) then 0 else 1)"
  by (simp add: reset_pulse_def presence_asserted_def split_beta)

text \<open>
  C6 as stated (true if and only if presence was asserted) fails: on a line held low in the
  presence window, \<open>reset_pulse\<close> returns 0, which is false in C.
\<close>

theorem reset_pulse_presence_counterexample:
  "presence_asserted (fst (w_reset discrepant [])) \<and> fst (reset_pulse discrepant []) = 0"
  by (simp add: reset_pulse_def presence_asserted_def discrepant_def)

subsection \<open>The choice at a discrepancy\<close>

text \<open>
  C2, as the code has it: when both bits read are 0 the pass writes to the line and stores
  in \<open>ROM\<close> the bit \<open>g\<close> chosen as follows. At a position before \<open>lastDiscrep\<close> it replays the
  bit of \<open>ROM\<close> at that position, and records the position in \<open>discrepMarker\<close> when that bit
  is 0; at the position equal to \<open>lastDiscrep\<close> it chooses 1 and leaves \<open>discrepMarker\<close> as it
  is; at a position after \<open>lastDiscrep\<close> it chooses 0 and records the position in
  \<open>discrepMarker\<close>.
\<close>

theorem Next_body_discrepancy:
  assumes "w_read W b = (i1, b1)" and "w_read W b1 = (i2, b2)"
    and "i1 AND 0x40 = 0" and "i2 AND 0x40 = 0"
  shows "Next_body W ld (b, rom, m, n, k, discrepMarker) =
     (let g = (if m < ld then rom ! nat n AND k \<noteq> 0 else m = ld);
          rom' = (if g then rom[nat n := rom ! nat n OR k]
                  else rom[nat n := rom ! nat n AND NOT k]);
          discrepMarker' = (if g then discrepMarker else m);
          (n', k') = (if push_bit 1 k = 0 then (n + 1, 1) else (n, push_bit 1 k))
      in (False, (w_write W g b2, rom', m + 1, n', k', discrepMarker')))"
  using assms
  by (simp add: Next_body_def read_bit_def choose_bit_def write_bit_def Let_def)

theorem Next_body_discrepancy_witness:
  "Next_body discrepant 3 ([], [0xff, 0xff], 2, 0, 2, 0) = (False, ([True], [0xff, 0xff], 3, 0, 4, 0))
   \<and> Next_body discrepant 3 ([], [0, 0], 2, 0, 2, 0) = (False, ([False], [0, 0], 3, 0, 4, 2))"
  using Next_body_discrepancy [of discrepant "[]" 0 "[]" 0 "[]" 3 "[0xff, 0xff]" 2 0 2 0]
    Next_body_discrepancy [of discrepant "[]" 0 "[]" 0 "[]" 3 "[0, 0]" 2 0 2 0]
  by (simp add: discrepant_def)

text \<open>
  C2 as stated (at a position not before \<open>lastDiscrep\<close>: choose 1 and record the position)
  fails both ways: at position 1 with \<open>lastDiscrep = 0\<close> the pass writes 0 and records 1, and
  at position 5 with \<open>lastDiscrep = 5\<close> it writes 1 and leaves the marker at 3.
\<close>

theorem Next_body_discrepancy_counterexample:
  "Next_body discrepant 0 ([], [0xff, 0xff], 1, 0, 1, 0) = (False, ([False], [0xfe, 0xff], 2, 0, 2, 1))
   \<and> Next_body discrepant 5 ([], [0, 0], 5, 0, 0x10, 3) = (False, ([True], [0x10, 0], 6, 0, 0x20, 3))"
  by (simp add: Next_body_def read_bit_def choose_bit_def write_bit_def Let_def discrepant_def)

subsection \<open>Celsius\<close>

text \<open>
  C7: for a negative sample the code inverts the whole-degree bits and two's-complements the
  nibble separately, so the carry out of a zero nibble is lost. Bytes \<open>0xff, 0xf0\<close> (-1.0 in
  the test table of the source) give whole part 0 where two's-complementing the combined
  value gives 1, and \<open>0xfc, 0x90\<close> (-55.0 in that table) give 54 where it gives 55. Bytes
  \<open>0xff, 0xf8\<close> give sign \<open>-\<close>, whole part 0 and nibble 8, whose digit is \<open>5\<close>.
\<close>

theorem celsius_negative_whole_degrees:
  "celsius_parts 0xff 0xf0 = (CHR ''-'', 0, 0)
   \<and> celsius_twos_complement 0xff 0xf0 = (CHR ''-'', 1, 0)
   \<and> celsius_parts 0xfc 0x90 = (CHR ''-'', 54, 0)
   \<and> celsius_twos_complement 0xfc 0x90 = (CHR ''-'', 55, 0)
   \<and> celsius_parts 0xff 0xf8 = (CHR ''-'', 0, 8) \<and> dec_temp ! 8 = CHR ''5''"
  by (simp add: celsius_parts_def celsius_twos_complement_def raw_temp_def dec_temp_def)

subsection \<open>Fahrenheit\<close>

















subsection \<open>The sentinel\<close>

text \<open>
  C9: a slot whose high byte is \<open>0x55\<close>, the value the code tests for "sensor absent",
  formats as \<open>------\<close> in both units, and no real reading (bits 11 to 15 all equal) has
  that high byte.
\<close>

theorem sentinel_format:
  "(DS18B20_scratch s device_num 1 = 0x55 \<longrightarrow>
      convert_temperature emb_itoa s device_num degCorF = ''------'')
   \<and> (real_reading (raw_temp msb lsb) \<longrightarrow> msb \<noteq> 0x55)"
proof -
  have "\<not> real_reading (raw_temp 0x55 lsb)"
    by (auto simp: real_reading_def raw_temp_def bit_simps dest: bit_imp_le_length)
  then show ?thesis
    by (auto simp: convert_temperature_def)
qed

theorem sentinel_format_witness:
  "convert_temperature (\<lambda>n. ''000'') (startup\<lparr>DS18B20_scratch := (\<lambda>d i. 0x55)\<rparr>) 0 0 = ''------''
   \<and> convert_temperature (\<lambda>n. ''000'') (startup\<lparr>DS18B20_scratch := (\<lambda>d i. 0x55)\<rparr>) 0 1 = ''------''
   \<and> real_reading (raw_temp 0x07 0xd0) \<and> (0x07 :: u8) \<noteq> 0x55"
  using sentinel_format [where s = "startup\<lparr>DS18B20_scratch := (\<lambda>d i. 0x55)\<rparr>"
      and device_num = 0 and emb_itoa = "\<lambda>n. ''000''" and degCorF = 0 and msb = "0x07" and lsb = "0xd0"]
    sentinel_format [where s = "startup\<lparr>DS18B20_scratch := (\<lambda>d i. 0x55)\<rparr>"
      and device_num = 0 and emb_itoa = "\<lambda>n. ''000''" and degCorF = 1 and msb = "0x07" and lsb = "0xd0"]
  by (simp add: real_reading_def raw_temp_def bit_simps)

subsection \<open>Sampling\<close>

lemma read_scratch_byte_rows:
  "j \<noteq> d \<Longrightarrow> DS18B20_scratch (snd (read_scratch_byte W d i p)) j = DS18B20_scratch (snd p) j"
  by (simp add: read_scratch_byte_def split_beta)

lemma sample_device_rows:
  "j \<noteq> d \<Longrightarrow> DS18B20_scratch (snd (sample_device W d p)) j = DS18B20_scratch (snd p) j"
  by (simp add: sample_device_def split_beta Let_def read_scratch_byte_rows upt_rec [of _ 2])

declare before_pass.simps(2) [simp del]

lemma read_scratch_fold:
  "fst (fold (read_scratch_body W) ms (b, v)) = fst (fold (read_scratch_body W) ms (b, 0))
   \<and> snd (fold (read_scratch_body W) ms (b, v))
       = snd (fold (read_scratch_body W) ms (b, 0)) OR (v AND NOT (foldr (OR) ms 0))"
proof (induction ms arbitrary: b v)
  case Nil
  show ?case by simp
next
  case (Cons m ms)
  obtain bt b1 where r: "read_bit W b = (bt, b1)" by (cases "read_bit W b")
  define x where "x = (if bt = 1 then m else 0)"
  have step: "read_scratch_body W m (b, u) = (b1, x OR (u AND NOT m))" for u
  proof -
    have "u OR m = m OR (u AND NOT m)"
      by (rule bit_word_eqI) (auto simp: bit_simps)
    then show ?thesis
      by (simp add: read_scratch_body_def r x_def)
  qed
  have s0: "read_scratch_body W m (b, 0) = (b1, x)"
    using step [of 0] by simp
  define F where "F = snd (fold (read_scratch_body W) ms (b1, 0))"
  define Ms where "Ms = foldr (OR) ms (0 :: u8)"
  have alg: "F OR ((x OR (v AND NOT m)) AND NOT Ms)
      = (F OR (x AND NOT Ms)) OR (v AND NOT (m OR Ms))"
    by (rule bit_word_eqI) (auto simp: bit_simps)
  from Cons.IH [of b1 "x OR (v AND NOT m)"] Cons.IH [of b1 x] alg
  show ?case
    by (simp add: step s0 F_def Ms_def)
qed

lemma read_scratch_fresh:
  "fold (read_scratch_body W) masks (b, v) = scratch_read W b"
proof -
  have "foldr (OR) masks (0 :: u8) = - 1"
    by (simp add: masks_def)
  then have "v AND NOT (foldr (OR) masks 0) = 0"
    by (simp only: bit.compl_one and.right_neutral and_zero_eq not_one_eq bit.conj_zero_right)
  with read_scratch_fold [of W masks b v] show ?thesis
    unfolding scratch_read_def by (intro prod_eqI) simp_all
qed

lemma read_scratch_byte_eq:
  "read_scratch_byte W d i (b, s) =
     (fst (scratch_read W b),
      s\<lparr>DS18B20_scratch :=
          (DS18B20_scratch s)(d := (DS18B20_scratch s d)(i := snd (scratch_read W b)))\<rparr>)"
  by (simp add: read_scratch_byte_def read_scratch_fresh split_beta)

lemma match_ROM_cong: "FoundROM s = FoundROM s' \<Longrightarrow> match_ROM W s d b = match_ROM W s' d b"
  by (simp add: match_ROM_def)

lemma sample_device_eq:
  "sample_device W d (b, s) =
     (let b0 = transmit_byte W 0xbe (match_ROM W s d b);
          r0 = scratch_read W b0;
          r1 = scratch_read W (fst r0)
      in (transmit_byte W 0x44 (match_ROM W s d (snd (reset_pulse W (fst r1)))),
          s\<lparr>DS18B20_scratch :=
              (DS18B20_scratch s)(d := (DS18B20_scratch s d)(0 := snd r0, 1 := snd r1))\<rparr>))"
proof -
  have u: "[0 ..< 2] = [0, Suc 0]" by (simp add: upt_rec [of _ 2])
  show ?thesis
    unfolding sample_device_def u
    by (simp add: read_scratch_byte_eq Let_def split_beta match_ROM_def)
qed

lemma sample_device_fields:
  "numROMs (snd (sample_device W d p)) = numROMs (snd p)"
  "FoundROM (snd (sample_device W d p)) = FoundROM (snd p)"
  by (cases p; simp add: sample_device_eq Let_def)+

lemma before_pass_fields:
  "numROMs (snd (before_pass W d p)) = numROMs (snd p)
   \<and> FoundROM (snd (before_pass W d p)) = FoundROM (snd p)"
proof (induction d)
  case 0
  show ?case by simp
next
  case (Suc d)
  then show ?case
    by (simp add: before_pass.simps(2) split_beta Let_def sample_device_fields)
qed

lemma before_pass_later_rows:
  "d \<le> j \<Longrightarrow> DS18B20_scratch (snd (before_pass W d p)) j = DS18B20_scratch (snd p) j"
proof (induction d)
  case 0
  show ?case by simp
next
  case (Suc d)
  then have "j \<noteq> d" "d \<le> j" by simp_all
  with Suc.IH show ?case
    by (simp add: before_pass.simps(2) split_beta Let_def sample_device_rows)
qed

lemma before_pass_row:
  assumes "int j \<le> numROMs (snd p)"
  shows "DS18B20_scratch (snd (before_pass W (Suc j) p)) j 0
           = snd (scratch_read W (read_begin W (snd p) j (fst (before_pass W j p))))
     \<and> DS18B20_scratch (snd (before_pass W (Suc j) p)) j 1
           = snd (scratch_read W (fst (scratch_read W
               (read_begin W (snd p) j (fst (before_pass W j p))))))"
proof -
  obtain b s where q: "before_pass W j p = (b, s)" by (cases "before_pass W j p")
  from before_pass_fields [of W j p] q
  have f: "numROMs s = numROMs (snd p)" "FoundROM s = FoundROM (snd p)" by simp_all
  have m: "match_ROM W s j = match_ROM W (snd p) j"
    by (rule ext) (rule match_ROM_cong [OF f(2)])
  from assms f(1) have "int j \<le> numROMs s" by simp
  then show ?thesis
    by (simp add: before_pass.simps(2) q split_beta sample_device_eq Let_def read_begin_def m)
qed

lemma before_pass_earlier_rows:
  "j < d \<Longrightarrow> DS18B20_scratch (snd (before_pass W d p)) j
     = DS18B20_scratch (snd (before_pass W (Suc j) p)) j"
proof (induction d)
  case 0
  then show ?case by simp
next
  case (Suc d)
  show ?case
  proof (cases "j = d")
    case True
    then show ?thesis by simp
  next
    case False
    with Suc.prems have lt: "j < d" by simp
    from False have "DS18B20_scratch (snd (before_pass W (Suc d) p)) j
        = DS18B20_scratch (snd (before_pass W d p)) j"
      by (simp add: before_pass.simps(2) split_beta Let_def sample_device_rows)
    with Suc.IH [OF lt] show ?thesis by simp
  qed
qed

lemma get_temperature_loop_passes:
  "answered W d p \<Longrightarrow> d \<le> 5 \<Longrightarrow>
     get_temperature_loop W 0 p = get_temperature_loop W d (before_pass W d p)"
proof (induction d)
  case 0
  show ?case by simp
next
  case (Suc d)
  then have a: "answered W d p" and r: "fst (reset_pulse W (fst (before_pass W d p))) = 0"
    and lt: "d < 5"
    by simp_all
  obtain b s where q: "before_pass W d p = (b, s)" by (cases "before_pass W d p")
  obtain rp b1 where rp: "reset_pulse W b = (rp, b1)" by (cases "reset_pulse W b")
  from r q rp have z: "rp = 0" by simp
  have "get_temperature_loop W d (b, s) = get_temperature_loop W (Suc d) (before_pass W (Suc d) p)"
    using lt by (simp add: get_temperature_loop.simps [of W d] rp z before_pass.simps(2) q)
  with Suc.IH [OF a] lt q show ?case by simp
qed

lemma reset_pulse_flaky:
  "reset_pulse (flaky k) (n, w) = (if n < k then 0 else 1, (Suc n, w))"
  by (simp add: reset_pulse_def flaky_def)

lemma transmit_byte_flaky:
  "transmit_byte (flaky k) v (n, w) = (n, if k < n then w + 8 else w)"
  by (simp add: transmit_byte_def transmit_body_def write_bit_def masks_def flaky_def)

lemma match_ROM_flaky:
  "match_ROM (flaky k) s d (n, w) = (n, if k < n then w + 72 else w)"
  by (simp add: match_ROM_def transmit_byte_flaky upt_rec [of _ 8])

lemma scratch_read_flaky: "scratch_read (flaky k) l = (l, 0xff)"
  by (simp add: scratch_read_def read_scratch_body_def read_bit_def masks_def flaky_def)

lemma sample_device_flaky:
  "sample_device (flaky k) d ((n, w), s) =
     ((Suc n, if k < n then w + 160 else if k < Suc n then w + 80 else w),
      s\<lparr>DS18B20_scratch :=
          (DS18B20_scratch s)(d := (DS18B20_scratch s d)(0 := 0xff, 1 := 0xff))\<rparr>)"
  by (simp add: sample_device_eq match_ROM_flaky transmit_byte_flaky scratch_read_flaky
      reset_pulse_flaky Let_def)

lemma pass_flaky:
  assumes "n < k" "Suc n < k" "int d \<le> numROMs s" "before_pass (flaky k) d p = ((n, w), s)"
  shows "before_pass (flaky k) (Suc d) p =
     ((Suc (Suc n), w),
      s\<lparr>DS18B20_scratch :=
          (DS18B20_scratch s)(d := (DS18B20_scratch s d)(0 := 0xff, 1 := 0xff))\<rparr>)"
  using assms
  by (simp add: before_pass.simps(2) reset_pulse_flaky sample_device_flaky)

lemma before_pass_flaky_1:
  "before_pass (flaky (Suc (Suc k))) 1 ((0, 0), three_found) =
     ((2, 0), three_found\<lparr>DS18B20_scratch :=
        (DS18B20_scratch three_found)(0 := (DS18B20_scratch three_found 0)(0 := 0xff, 1 := 0xff))\<rparr>)"
  using pass_flaky [of 0 "Suc (Suc k)" 0 three_found "((0, 0), three_found)" 0]
  by (simp add: three_found_def)

lemma before_pass_flaky_2:
  "before_pass (flaky 4) 2 ((0, 0), three_found) =
     ((4, 0), three_found\<lparr>DS18B20_scratch :=
        (DS18B20_scratch three_found)(0 := (DS18B20_scratch three_found 0)(0 := 0xff, 1 := 0xff),
           1 := (DS18B20_scratch three_found 1)(0 := 0xff, 1 := 0xff))\<rparr>)"
proof -
  define s1 where "s1 = three_found\<lparr>DS18B20_scratch :=
        (DS18B20_scratch three_found)(0 := (DS18B20_scratch three_found 0)(0 := 0xff, 1 := 0xff))\<rparr>"
  have k: "flaky 4 = flaky (Suc (Suc 2))" by (simp add: numeral_eq_Suc)
  have p1: "before_pass (flaky 4) 1 ((0, 0), three_found) = ((2, 0), s1)"
    unfolding k s1_def by (rule before_pass_flaky_1)
  have n1: "int 1 \<le> numROMs s1" by (simp add: s1_def three_found_def)
  have "before_pass (flaky 4) (Suc 1) ((0, 0), three_found) =
     ((Suc (Suc 2), 0), s1\<lparr>DS18B20_scratch :=
          (DS18B20_scratch s1)(1 := (DS18B20_scratch s1 1)(0 := 0xff, 1 := 0xff))\<rparr>)"
    by (rule pass_flaky [OF _ _ n1 p1]) simp_all
  moreover have "Suc 1 = 2" "Suc (Suc 2) = 4" by simp_all
  ultimately have "before_pass (flaky 4) 2 ((0, 0), three_found) =
     ((4, 0), s1\<lparr>DS18B20_scratch :=
          (DS18B20_scratch s1)(1 := (DS18B20_scratch s1 1)(0 := 0xff, 1 := 0xff))\<rparr>)"
    by (simp only:)
  then show ?thesis by (simp add: s1_def)
qed

lemma answered_flaky_1: "answered (flaky (Suc (Suc k))) 1 ((0, 0), three_found)"
proof -
  have "answered (flaky (Suc (Suc k))) (Suc 0) ((0, 0), three_found)"
    by (simp add: reset_pulse_flaky)
  then show ?thesis by simp
qed

lemma answered_flaky_2: "answered (flaky 4) 2 ((0, 0), three_found)"
proof -
  have "answered (flaky 4) (Suc 1) ((0, 0), three_found)"
    using answered_flaky_1 [of 2] before_pass_flaky_1 [of 2]
    by (simp add: reset_pulse_flaky numeral_eq_Suc)
  then show ?thesis by (simp add: numeral_eq_Suc)
qed

lemma get_temperature_flaky_1:
  "get_temperature (flaky 1) ((0, 0), three_found) =
     (Some 1, (3, 80), three_found\<lparr>DS18B20_scratch :=
        (DS18B20_scratch three_found)(0 := (DS18B20_scratch three_found 0)(0 := 0xff, 1 := 0xff))\<rparr>)"
proof -
  have n: "numROMs three_found = 2"
    by (simp add: three_found_def)
  show ?thesis
    by (simp add: get_temperature_def get_temperature_loop.simps [of _ 0]
        get_temperature_loop.simps [of _ "Suc 0"] reset_pulse_flaky n sample_device_flaky)
qed

text \<open>
  C5, as the code has it: when the \<open>reset_pulse()\<close> at the start of the pass for device \<open>d\<close>
  reports no presence, those of the passes before it having been answered, \<open>get_temperature\<close>
  returns there and then: the line is as that reset left it, and the globals are as they
  stood when the pass began. The samples of device \<open>d\<close> and of every later device are the
  ones from before the call. The sample of a device \<open>j\<close> before \<open>d\<close>, when \<open>j <= numROMs\<close>,
  has been replaced by the two bytes read from the line in its pass, and is not restored.
  (Nothing is said here of the second \<open>reset_pulse()\<close> of a pass, whose value the code does
  not look at.)
\<close>

theorem get_temperature_abort:
  assumes "d < 5" "answered W d (b, s)" "before_pass W d (b, s) = (b1, s1)"
    and "fst (reset_pulse W b1) \<noteq> 0"
  shows "get_temperature W (b, s) = (Some d, snd (reset_pulse W b1), s1)
     \<and> (\<forall>j \<ge> d. DS18B20_scratch s1 j = DS18B20_scratch s j)
     \<and> (\<forall>j < d. int j \<le> numROMs s \<longrightarrow>
          DS18B20_scratch s1 j 0
            = snd (scratch_read W (read_begin W s j (fst (before_pass W j (b, s)))))
          \<and> DS18B20_scratch s1 j 1
            = snd (scratch_read W (fst (scratch_read W
                (read_begin W s j (fst (before_pass W j (b, s))))))))"
proof (intro conjI allI impI)
  obtain rp b2 where rp: "reset_pulse W b1 = (rp, b2)" by (cases "reset_pulse W b1")
  with assms(4) have nz: "rp \<noteq> 0" by simp
  from get_temperature_loop_passes [OF assms(2)] assms(1,3)
  have "get_temperature W (b, s) = get_temperature_loop W d (b1, s1)"
    by (simp add: get_temperature_def)
  also have "\<dots> = (Some d, b2, s1)"
    using assms(1) nz by (simp add: get_temperature_loop.simps [of W d] rp)
  finally show "get_temperature W (b, s) = (Some d, snd (reset_pulse W b1), s1)"
    by (simp add: rp)
next
  fix j assume "d \<le> j"
  from before_pass_later_rows [OF this, of W "(b, s)"] assms(3)
  show "DS18B20_scratch s1 j = DS18B20_scratch s j" by simp
next
  fix j assume j: "j < d" "int j \<le> numROMs s"
  from before_pass_earlier_rows [OF j(1), of W "(b, s)"] assms(3)
  have e: "DS18B20_scratch s1 j = DS18B20_scratch (snd (before_pass W (Suc j) (b, s))) j"
    by simp
  from before_pass_row [of j "(b, s)" W] j(2)
  show "DS18B20_scratch s1 j 0
      = snd (scratch_read W (read_begin W s j (fst (before_pass W j (b, s)))))"
    and "DS18B20_scratch s1 j 1
      = snd (scratch_read W (fst (scratch_read W
          (read_begin W s j (fst (before_pass W j (b, s)))))))"
    unfolding e by simp_all
qed

theorem get_temperature_abort_witness:
  "get_temperature (flaky 2) ((0, 0), three_found) =
     (Some 1, (3, 0), three_found\<lparr>DS18B20_scratch :=
        (DS18B20_scratch three_found)(0 := (DS18B20_scratch three_found 0)(0 := 0xff, 1 := 0xff))\<rparr>)
   \<and> DS18B20_scratch (snd (snd (get_temperature (flaky 2) ((0, 0), three_found)))) 1
       = DS18B20_scratch three_found 1
   \<and> DS18B20_scratch (snd (snd (get_temperature (flaky 4) ((0, 0), three_found)))) 1 0 = 0xff
   \<and> DS18B20_scratch (snd (snd (get_temperature (flaky 4) ((0, 0), three_found)))) 2
       = DS18B20_scratch three_found 2
   \<and> int 2 \<le> numROMs three_found
   \<and> answered (flaky 2) 1 ((0, 0), three_found)
   \<and> fst (before_pass (flaky 2) 1 ((0, 0), three_found)) = (2, 0)
   \<and> fst (reset_pulse (flaky 2) (2, 0)) = 1"
proof -
  have r2: "fst (reset_pulse (flaky 2) (2, 0)) \<noteq> 0" "fst (reset_pulse (flaky 4) (4, 0)) \<noteq> 0"
    by (simp_all add: reset_pulse_flaky)
  have k2: "flaky 2 = flaky (Suc (Suc 0))" by (simp add: numeral_eq_Suc)
  note A = get_temperature_abort [of 1 "flaky 2" "(0, 0)" three_found, unfolded k2,
      OF _ answered_flaky_1 before_pass_flaky_1, folded k2, OF _ r2(1)]
  note B = get_temperature_abort [of 2 "flaky 4" "(0, 0)" three_found,
      OF _ answered_flaky_2 before_pass_flaky_2 r2(2)]
  have A1: "get_temperature (flaky 2) ((0, 0), three_found) =
     (Some 1, (3, 0), three_found\<lparr>DS18B20_scratch :=
        (DS18B20_scratch three_found)(0 := (DS18B20_scratch three_found 0)(0 := 0xff, 1 := 0xff))\<rparr>)"
    using A by (simp add: reset_pulse_flaky)
  have B1: "snd (snd (get_temperature (flaky 4) ((0, 0), three_found))) =
     three_found\<lparr>DS18B20_scratch :=
        (DS18B20_scratch three_found)(0 := (DS18B20_scratch three_found 0)(0 := 0xff, 1 := 0xff),
           1 := (DS18B20_scratch three_found 1)(0 := 0xff, 1 := 0xff))\<rparr>"
    using B by simp
  have H: "answered (flaky 2) 1 ((0, 0), three_found)"
    "fst (before_pass (flaky 2) 1 ((0, 0), three_found)) = (2, 0)"
    "fst (reset_pulse (flaky 2) (2, 0)) = 1"
    unfolding k2 by (simp_all only: answered_flaky_1 before_pass_flaky_1 fst_conv)
      (simp add: reset_pulse_flaky)
  have "int 2 \<le> numROMs three_found"
    by (simp add: three_found_def)
  moreover have "DS18B20_scratch (snd (snd (get_temperature (flaky 2) ((0, 0), three_found)))) 1
       = DS18B20_scratch three_found 1"
    unfolding A1 by simp
  moreover have "DS18B20_scratch (snd (snd (get_temperature (flaky 4) ((0, 0), three_found)))) 1 0 = 0xff"
    unfolding B1 by simp
  moreover have "DS18B20_scratch (snd (snd (get_temperature (flaky 4) ((0, 0), three_found)))) 2
       = DS18B20_scratch three_found 2"
    unfolding B1 by simp
  ultimately show ?thesis
    using A1 H by (intro conjI)
qed

text \<open>
  C5 as stated fails in both parts. No sample of the pass is changed: with three devices
  found, on a line that stops answering after two resets, the call leaves at device 1 and
  the sample of device 0 has already been replaced. Any reset that reports no presence
  aborts the pass: on a line that answers the first reset only, the second reset of the
  call, the one that follows the read of device 0, reports no presence, and 80 write slots
  follow it (the match_ROM bytes and \<open>0x44\<close>) before the call returns at the third reset.
\<close>

theorem get_temperature_abort_counterexample:
  "DS18B20_scratch (snd (snd (get_temperature (flaky 2) ((0, 0), three_found)))) 0 0
       \<noteq> DS18B20_scratch three_found 0 0
   \<and> fst (reset_pulse (flaky 1) (1, 0)) = 1
   \<and> fst (snd (get_temperature (flaky 1) ((0, 0), three_found))) = (3, 80)"
proof -
  have n: "numROMs three_found = 2"
    by (simp add: three_found_def)
  have "get_temperature (flaky 2) ((0, 0), three_found) =
     (Some 1, (3, 0), three_found\<lparr>DS18B20_scratch :=
        (DS18B20_scratch three_found)(0 := (DS18B20_scratch three_found 0)(0 := 0xff, 1 := 0xff))\<rparr>)"
    by (simp add: get_temperature_def get_temperature_loop.simps [of _ 0]
        get_temperature_loop.simps [of _ "Suc 0"] reset_pulse_flaky n sample_device_flaky)
  then have "DS18B20_scratch (snd (snd (get_temperature (flaky 2) ((0, 0), three_found)))) 0 0
       \<noteq> DS18B20_scratch three_found 0 0"
    by (simp add: three_found_def startup_def)
  moreover have "fst (reset_pulse (flaky 1) (1, 0)) = 1"
    unfolding reset_pulse_flaky by simp
  moreover have "fst (snd (get_temperature (flaky 1) ((0, 0), three_found))) = (3, 80)"
    unfolding get_temperature_flaky_1 by simp
  ultimately show ?thesis by (intro conjI)
qed

subsection \<open>Identifier trees\<close>

lemma sub_length:
  assumes "\<forall>d \<in> set A. length d = Suc n"
  shows "\<forall>d \<in> set (sub g A). length d = n"
proof
  fix e
  assume "e \<in> set (sub g A)"
  then obtain d where d: "d \<in> set A" "e = tl d"
    unfolding sub_def by auto
  with assms have "length d = Suc n" by blast
  with d show "length e = n" by simp
qed

lemma set_sub:
  assumes "\<forall>d \<in> set A. length d = Suc n"
  shows "set (sub g A) = {e. g # e \<in> set A}"
proof (intro set_eqI iffI)
  fix e
  assume "e \<in> set (sub g A)"
  then obtain d where d: "d \<in> set A" "hd d = g" "e = tl d"
    unfolding sub_def by auto
  moreover from d assms obtain x xs where "d = x # xs"
    by (metis length_Suc_conv)
  ultimately show "e \<in> {e. g # e \<in> set A}" by auto
next
  fix e
  assume "e \<in> {e. g # e \<in> set A}"
  then have "g # e \<in> set (filter (\<lambda>d. d \<noteq> [] \<and> hd d = g) A)" by simp
  then have "tl (g # e) \<in> set (sub g A)"
    unfolding sub_def set_map by (rule imageI)
  then show "e \<in> set (sub g A)" by simp
qed

lemma sub_empty_iff:
  assumes "\<forall>d \<in> set A. length d = Suc n"
  shows "sub g A = [] \<longleftrightarrow> (\<forall>d \<in> set A. hd d \<noteq> g)"
proof
  assume "sub g A = []"
  then have "set (sub g A) = {}" by simp
  then have e: "\<And>e. g # e \<notin> set A" by (simp add: set_sub [OF assms])
  show "\<forall>d \<in> set A. hd d \<noteq> g"
  proof
    fix d assume d: "d \<in> set A"
    with assms obtain x xs where "d = x # xs"
      by (metis length_Suc_conv)
    with e [of xs] d show "hd d \<noteq> g" by (cases x; cases g) auto
  qed
next
  assume "\<forall>d \<in> set A. hd d \<noteq> g"
  then have "set (sub g A) = {}" unfolding set_sub [OF assms] by fastforce
  then show "sub g A = []" by simp
qed

lemma ones_iff:
  assumes "\<forall>d \<in> set A. length d = Suc n"
  shows "list_all (\<lambda>d. hd d) A \<longleftrightarrow> sub False A = []"
  unfolding sub_empty_iff [OF assms] list_all_iff by simp

lemma zeros_iff:
  assumes "\<forall>d \<in> set A. length d = Suc n"
  shows "list_all (\<lambda>d. \<not> hd d) A \<longleftrightarrow> sub True A = []"
  unfolding sub_empty_iff [OF assms] list_all_iff by simp

lemma sub_some:
  assumes "A \<noteq> []" "\<forall>d \<in> set A. length d = Suc n"
  shows "sub False A \<noteq> [] \<or> sub True A \<noteq> []"
proof -
  from assms(1) obtain d where "d \<in> set A" by (cases A) auto
  then show ?thesis
    unfolding sub_empty_iff [OF assms(2)] by (cases "hd d") auto
qed

lemma leaves_nonempty:
  "A \<noteq> [] \<Longrightarrow> \<forall>d \<in> set A. length d = n \<Longrightarrow> leaves n A \<noteq> []"
proof (induction n arbitrary: A)
  case 0
  show ?case by simp
next
  case (Suc n)
  from sub_some [OF Suc.prems] show ?case
  proof
    assume "sub False A \<noteq> []"
    with Suc.IH [of "sub False A"] sub_length [OF Suc.prems(2)] show ?thesis by simp
  next
    assume "sub True A \<noteq> []"
    with Suc.IH [of "sub True A"] sub_length [OF Suc.prems(2)] show ?thesis by simp
  qed
qed

lemma set_leaves:
  "A \<noteq> [] \<Longrightarrow> \<forall>d \<in> set A. length d = n \<Longrightarrow> set (leaves n A) = set A"
proof (induction n arbitrary: A)
  case 0
  then show ?case by (cases A) auto
next
  case (Suc n)
  note len = sub_length [OF Suc.prems(2)]
  have F: "set (if sub False A = [] then [] else map ((#) False) (leaves n (sub False A)))
           = {d \<in> set A. \<not> hd d}"
  proof (cases "sub False A = []")
    case True
    then show ?thesis using sub_empty_iff [OF Suc.prems(2), of False] by auto
  next
    case False
    have "(#) False ` {e. False # e \<in> set A} = {d \<in> set A. \<not> hd d}"
    proof (intro set_eqI iffI)
      fix d assume "d \<in> {d \<in> set A. \<not> hd d}"
      with Suc.prems(2) show "d \<in> (#) False ` {e. False # e \<in> set A}"
        by (cases d) auto
    qed auto
    with False Suc.IH [OF False len] show ?thesis
      by (simp add: set_sub [OF Suc.prems(2)])
  qed
  have T: "set (if sub True A = [] then [] else map ((#) True) (leaves n (sub True A)))
           = {d \<in> set A. hd d}"
  proof (cases "sub True A = []")
    case True
    then show ?thesis using sub_empty_iff [OF Suc.prems(2), of True] by auto
  next
    case False
    have "(#) True ` {e. True # e \<in> set A} = {d \<in> set A. hd d}"
    proof (intro set_eqI iffI)
      fix d assume "d \<in> {d \<in> set A. hd d}"
      with Suc.prems(2) show "d \<in> (#) True ` {e. True # e \<in> set A}"
        by (cases d) auto
    qed auto
    with False Suc.IH [OF False len] show ?thesis
      by (simp add: set_sub [OF Suc.prems(2)])
  qed
  show ?case
    unfolding leaves.simps set_append F T by auto
qed

lemma distinct_leaves: "distinct (leaves n A)"
proof (induction n arbitrary: A)
  case 0
  show ?case by simp
next
  case (Suc n)
  show ?case
    by (auto simp: distinct_map Suc.IH)
qed

lemma length_leaves:
  "distinct A \<Longrightarrow> A \<noteq> [] \<Longrightarrow> \<forall>d \<in> set A. length d = n \<Longrightarrow> length (leaves n A) = length A"
  using distinct_card [of A] distinct_card [OF distinct_leaves, of n A] set_leaves [of A n]
  by simp

lemma mark_cases: "mark p A e mk = mk \<or> p < mark p A e mk"
proof (induction e arbitrary: p A mk)
  case Nil
  show ?case by simp
next
  case (Cons g e)
  show ?case
    using Cons.IH [of "Suc p" "sub g A" "if \<not> g \<and> sub True A \<noteq> [] then Suc p else mk"]
    by (auto split: if_splits)
qed

lemma mark_le: "mk \<le> p + length e \<Longrightarrow> mark p A e mk \<le> p + length e"
proof (induction e arbitrary: p A mk)
  case Nil
  then show ?case by simp
next
  case (Cons g e)
  show ?case
    using Cons.IH [of "if \<not> g \<and> sub True A \<noteq> [] then Suc p else mk" "Suc p" "sub g A"] Cons.prems
    by (auto split: if_splits)
qed

subsection \<open>The first pass\<close>

lemma walk_Suc:
  assumes "\<forall>d \<in> set A. length d = Suc n"
  shows "walk L p (Suc n) A (r, mk) =
     (let g = (if sub False A = [] then True else if sub True A = [] then False
               else if Suc p < L then r ! p else Suc p = L);
          mk' = (if sub False A \<noteq> [] \<and> sub True A \<noteq> [] \<and> \<not> g then Suc p else mk)
      in walk L (Suc p) n (sub g A) (r[p := g], mk'))"
  by (simp add: ones_iff [OF assms] zeros_iff [OF assms] Let_def)

declare walk.simps(2) [simp del]

lemma mark_last:
  assumes "A \<noteq> []" "\<forall>d \<in> set A. length d = n" "i < length (leaves n A)" "mk \<le> p"
  shows "(Suc i = length (leaves n A) \<longrightarrow> mark p A (leaves n A ! i) mk = mk)
       \<and> (Suc i < length (leaves n A) \<longrightarrow> p < mark p A (leaves n A ! i) mk)"
  using assms
proof (induction n arbitrary: A i p mk)
  case 0
  then show ?case by simp
next
  case (Suc n)
  note len = sub_length [OF Suc.prems(2)]
  let ?l0 = "leaves n (sub False A)" and ?l1 = "leaves n (sub True A)"
  consider (Z) "sub False A \<noteq> []" "sub True A = []"
    | (O) "sub False A = []" "sub True A \<noteq> []"
    | (M) "sub False A \<noteq> []" "sub True A \<noteq> []"
    using sub_some [OF Suc.prems(1,2)] by blast
  then show ?case
  proof cases
    case Z
    with Suc.prems(3) have i: "i < length ?l0" by simp
    from Suc.IH [OF Z(1) len i, of mk "Suc p"] Suc.prems(4) Z i
    show ?thesis by auto
  next
    case O
    with Suc.prems(3) have i: "i < length ?l1" by simp
    from Suc.IH [OF O(2) len i, of mk "Suc p"] Suc.prems(4) O i
    show ?thesis by auto
  next
    case M
    have ne: "?l0 \<noteq> []" "?l1 \<noteq> []"
      using leaves_nonempty [OF M(1) len] leaves_nonempty [OF M(2) len] by simp_all
    show ?thesis
    proof (cases "i < length ?l0")
      case True
      then have e: "leaves (Suc n) A ! i = False # ?l0 ! i"
        using M by (simp add: nth_append)
      have "Suc i < length (leaves (Suc n) A)"
        using True ne M by (cases ?l1) auto
      moreover have "p < mark p A (leaves (Suc n) A ! i) mk"
        unfolding e
        using mark_cases [of "Suc p" "sub False A" "?l0 ! i" "Suc p"] M
        by auto
      ultimately show ?thesis by simp
    next
      case False
      define j where "j = i - length ?l0"
      from False Suc.prems(3) M have j: "j < length ?l1" "i = length ?l0 + j"
        by (auto simp: j_def)
      have e: "leaves (Suc n) A ! i = True # ?l1 ! j"
        using M j by (simp add: nth_append)
      have "length (leaves (Suc n) A) = length ?l0 + length ?l1"
        using M by simp
      with Suc.IH [OF M(2) len j(1), of mk "Suc p"] Suc.prems(4) M j
      show ?thesis unfolding e by auto
    qed
  qed
qed

lemma hd_leaves_Suc:
  assumes "A \<noteq> []" "\<forall>d \<in> set A. length d = Suc n"
  shows "hd (leaves (Suc n) A) =
           (sub False A = []) # hd (leaves n (sub (sub False A = []) A))"
proof (cases "sub False A = []")
  case True
  with sub_some [OF assms] have t: "sub True A \<noteq> []" by simp
  from leaves_nonempty [OF t sub_length [OF assms(2)]] True t
  show ?thesis by (simp add: hd_map)
next
  case False
  from leaves_nonempty [OF False sub_length [OF assms(2)]] False
  show ?thesis by (simp add: hd_map hd_append)
qed

lemma walk_first:
  assumes "A \<noteq> []" "\<forall>d \<in> set A. length d = n" "L \<le> p" "p + n \<le> length r"
  shows "walk L p n A (r, mk) =
           (take p r @ hd (leaves n A) @ drop (p + n) r, mark p A (hd (leaves n A)) mk)"
  using assms
proof (induction n arbitrary: A p r mk)
  case 0
  then show ?case by simp
next
  case (Suc n)
  note len = sub_length [OF Suc.prems(2)]
  define g where "g = (sub False A = [])"
  define mk' where "mk' = (if sub False A \<noteq> [] \<and> sub True A \<noteq> [] then Suc p else mk)"
  have ne: "sub g A \<noteq> []"
    using sub_some [OF Suc.prems(1,2)] by (cases "sub False A = []") (auto simp: g_def)
  have step: "walk L p (Suc n) A (r, mk) = walk L (Suc p) n (sub g A) (r[p := g], mk')"
    using Suc.prems(3) sub_some [OF Suc.prems(1,2)]
    by (auto simp: walk_Suc [OF Suc.prems(2)] g_def mk'_def Let_def)
  have p: "p < length r" using Suc.prems(4) by simp
  have IH: "walk L (Suc p) n (sub g A) (r[p := g], mk') =
      (take (Suc p) (r[p := g]) @ hd (leaves n (sub g A)) @ drop (Suc p + n) (r[p := g]),
       mark (Suc p) (sub g A) (hd (leaves n (sub g A))) mk')"
    using Suc.prems(3,4) by (intro Suc.IH [OF ne len]) simp_all
  have t: "take (Suc p) (r[p := g]) = take p r @ [g]"
    using p by (simp add: take_Suc_conv_app_nth)
  have m: "mark p A (hd (leaves (Suc n) A)) mk = mark (Suc p) (sub g A) (hd (leaves n (sub g A))) mk'"
    unfolding hd_leaves_Suc [OF Suc.prems(1,2)] g_def [symmetric]
    using sub_some [OF Suc.prems(1,2)] by (auto simp: g_def mk'_def)
  show ?case
    unfolding step IH t m
    by (simp add: hd_leaves_Suc [OF Suc.prems(1,2)] g_def del: leaves.simps)
qed

subsection \<open>A later pass\<close>

declare leaves.simps(2) [simp del]

lemma take_drop_Cons:
  assumes "take (Suc n) (drop p r) = g # e"
  shows "p < length r" and "r ! p = g" and "take n (drop (Suc p) r) = e" and "r[p := g] = r"
proof -
  show p: "p < length r"
    using assms by (cases "p < length r") auto
  then have "drop p r = r ! p # drop (Suc p) r"
    by (simp add: Cons_nth_drop_Suc)
  with assms show g: "r ! p = g" and "take n (drop (Suc p) r) = e"
    by simp_all
  from g show "r[p := g] = r" by auto
qed

lemma walk_result_step:
  assumes "p < length r"
  shows "(take (Suc p) (r[p := g]) @ e @ drop (Suc p + n) (r[p := g]), m)
       = (take p r @ (g # e) @ drop (p + Suc n) r, m)"
  using assms by (simp add: take_Suc_conv_app_nth)

lemma walk_next:
  assumes "A \<noteq> []" "\<forall>d \<in> set A. length d = n" "Suc i < length (leaves n A)"
    and "take n (drop p r) = leaves n A ! i" and "L = mark p A (leaves n A ! i) mk"
    and "mk \<le> p" and "p + n \<le> length r"
  shows "walk L p n A (r, mk) =
           (take p r @ (leaves n A ! Suc i) @ drop (p + n) r, mark p A (leaves n A ! Suc i) mk)"
  using assms
proof (induction n arbitrary: A i p r mk)
  case 0
  then show ?case by simp
next
  case (Suc n)
  note len = sub_length [OF Suc.prems(2)]
  note wS = walk_Suc [OF Suc.prems(2), of L p r mk]
  let ?l0 = "leaves n (sub False A)" and ?l1 = "leaves n (sub True A)"
  have p: "p < length r" using Suc.prems(7) by simp
  consider (Z) "sub False A \<noteq> []" "sub True A = []"
    | (O) "sub False A = []" "sub True A \<noteq> []"
    | (M) "sub False A \<noteq> []" "sub True A \<noteq> []"
    using sub_some [OF Suc.prems(1,2)] by blast
  then show ?case
  proof cases
    case Z
    have lv: "leaves (Suc n) A = map ((#) False) ?l0" using Z by (simp add: leaves.simps(2))
    from Suc.prems(3) have i: "Suc i < length ?l0" by (simp add: lv)
    have e: "leaves (Suc n) A ! i = False # ?l0 ! i" "leaves (Suc n) A ! Suc i = False # ?l0 ! Suc i"
      using i by (simp_all add: lv)
    note r = take_drop_Cons [OF Suc.prems(4) [unfolded e]]
    have "walk L p (Suc n) A (r, mk) = walk L (Suc p) n (sub False A) (r[p := False], mk)"
      using Z by (simp add: wS)
    also have "\<dots> = (take (Suc p) (r[p := False]) @ (?l0 ! Suc i) @ drop (Suc p + n) (r[p := False]),
                      mark (Suc p) (sub False A) (?l0 ! Suc i) mk)"
      using Suc.prems(5,6,7) Z r
      by (intro Suc.IH [OF Z(1) len i]) (simp_all add: e)
    finally show ?thesis
      unfolding walk_result_step [OF p] e using Z by simp
  next
    case O
    have lv: "leaves (Suc n) A = map ((#) True) ?l1" using O by (simp add: leaves.simps(2))
    from Suc.prems(3) have i: "Suc i < length ?l1" by (simp add: lv)
    have e: "leaves (Suc n) A ! i = True # ?l1 ! i" "leaves (Suc n) A ! Suc i = True # ?l1 ! Suc i"
      using i by (simp_all add: lv)
    note r = take_drop_Cons [OF Suc.prems(4) [unfolded e]]
    have "walk L p (Suc n) A (r, mk) = walk L (Suc p) n (sub True A) (r[p := True], mk)"
      using O by (simp add: wS)
    also have "\<dots> = (take (Suc p) (r[p := True]) @ (?l1 ! Suc i) @ drop (Suc p + n) (r[p := True]),
                      mark (Suc p) (sub True A) (?l1 ! Suc i) mk)"
      using Suc.prems(5,6,7) O r
      by (intro Suc.IH [OF O(2) len i]) (simp_all add: e)
    finally show ?thesis
      unfolding walk_result_step [OF p] e using O by simp
  next
    case M
    have lv: "leaves (Suc n) A = map ((#) False) ?l0 @ map ((#) True) ?l1"
      using M by (simp add: leaves.simps(2))
    have ne: "?l0 \<noteq> []" "?l1 \<noteq> []"
      using leaves_nonempty [OF M(1) len] leaves_nonempty [OF M(2) len] by simp_all
    consider (lo) "Suc i < length ?l0" | (mid) "Suc i = length ?l0" | (hi) "length ?l0 \<le> i"
      by linarith
    then show ?thesis
    proof cases
      case lo
      have e: "leaves (Suc n) A ! i = False # ?l0 ! i"
        "leaves (Suc n) A ! Suc i = False # ?l0 ! Suc i"
        using lo by (simp_all add: lv nth_append)
      note r = take_drop_Cons [OF Suc.prems(4) [unfolded e]]
      have L: "L = mark (Suc p) (sub False A) (?l0 ! i) (Suc p)"
        using Suc.prems(5) M by (simp add: e)
      have "Suc p < L"
        unfolding L using mark_last [OF M(1) len, of i "Suc p" "Suc p"] lo by simp
      then have "walk L p (Suc n) A (r, mk) = walk L (Suc p) n (sub False A) (r[p := False], Suc p)"
        using M r by (simp add: wS)
      also have "\<dots> = (take (Suc p) (r[p := False]) @ (?l0 ! Suc i) @ drop (Suc p + n) (r[p := False]),
                        mark (Suc p) (sub False A) (?l0 ! Suc i) (Suc p))"
        using Suc.prems(7) r L
        by (intro Suc.IH [OF M(1) len lo]) simp_all
      finally show ?thesis
        unfolding walk_result_step [OF p] e using M by simp
    next
      case mid
      have e: "leaves (Suc n) A ! i = False # ?l0 ! i"
        "leaves (Suc n) A ! Suc i = True # hd ?l1"
        using mid ne by (simp_all add: lv nth_append hd_conv_nth)
      have L: "L = mark (Suc p) (sub False A) (?l0 ! i) (Suc p)"
        using Suc.prems(5) M by (simp add: e)
      have "L = Suc p"
        unfolding L using mark_last [OF M(1) len, of i "Suc p" "Suc p"] mid by simp
      then have "walk L p (Suc n) A (r, mk) = walk L (Suc p) n (sub True A) (r[p := True], mk)"
        unfolding wS using M by simp
      also have "\<dots> = (take (Suc p) (r[p := True]) @ hd ?l1 @ drop (Suc p + n) (r[p := True]),
                        mark (Suc p) (sub True A) (hd ?l1) mk)"
        using Suc.prems(7) \<open>L = Suc p\<close>
        by (intro walk_first [OF M(2) len]) simp_all
      finally show ?thesis
        unfolding walk_result_step [OF p] e using M by simp
    next
      case hi
      define j where "j = i - length ?l0"
      from hi Suc.prems(3) have j: "Suc j < length ?l1" "i = length ?l0 + j"
        by (auto simp: j_def lv)
      have e: "leaves (Suc n) A ! i = True # ?l1 ! j"
        "leaves (Suc n) A ! Suc i = True # ?l1 ! Suc j"
        using j by (simp_all add: lv nth_append)
      note r = take_drop_Cons [OF Suc.prems(4) [unfolded e]]
      have L: "L = mark (Suc p) (sub True A) (?l1 ! j) mk"
        using Suc.prems(5) M by (simp add: e)
      have "Suc p < L"
        unfolding L using mark_last [OF M(2) len, of j mk "Suc p"] j Suc.prems(6) by simp
      then have "walk L p (Suc n) A (r, mk) = walk L (Suc p) n (sub True A) (r[p := True], mk)"
        using M r by (simp add: wS)
      also have "\<dots> = (take (Suc p) (r[p := True]) @ (?l1 ! Suc j) @ drop (Suc p + n) (r[p := True]),
                        mark (Suc p) (sub True A) (?l1 ! Suc j) mk)"
        using Suc.prems(6,7) r L
        by (intro Suc.IH [OF M(2) len j(1)]) simp_all
      finally show ?thesis
        unfolding walk_result_step [OF p] e using M by simp
    qed
  qed
qed

subsection \<open>Identifier bytes and bits\<close>

lemma length_id_bits [simp]: "length (id_bits rom) = 8 * length rom"
  by (simp add: id_bits_def)

lemma nth_id_bits: "i < 8 * length rom \<Longrightarrow> id_bits rom ! i = bit (rom ! (i div 8)) (i mod 8)"
  by (simp add: id_bits_def)

lemma mask_test: "(w AND push_bit j 1 \<noteq> 0) = bit w j" for w :: u8
  by (simp add: bit_iff_and_push_bit_not_eq_0)

lemma id_bits_set:
  assumes "p < 8 * length rom"
  shows "id_bits (rom[p div 8 := rom ! (p div 8) OR push_bit (p mod 8) 1]) = (id_bits rom)[p := True]"
proof (rule nth_equalityI)
  show "length (id_bits (rom[p div 8 := rom ! (p div 8) OR push_bit (p mod 8) 1])) = length ((id_bits rom)[p := True])"
    by simp
next
  fix i
  assume "i < length (id_bits (rom[p div 8 := rom ! (p div 8) OR push_bit (p mod 8) 1]))"
  then have i: "i < 8 * length rom" by simp
  then have d: "i div 8 < length rom" by simp
  have "i = p \<longleftrightarrow> i div 8 = p div 8 \<and> i mod 8 = p mod 8"
    by (metis div_mult_mod_eq)
  with i d assms
  show "id_bits (rom[p div 8 := rom ! (p div 8) OR push_bit (p mod 8) 1]) ! i = (id_bits rom)[p := True] ! i"
    by (auto simp: nth_id_bits nth_list_update bit_simps)
qed

lemma id_bits_clear:
  assumes "p < 8 * length rom"
  shows "id_bits (rom[p div 8 := rom ! (p div 8) AND NOT (push_bit (p mod 8) 1)]) = (id_bits rom)[p := False]"
proof (rule nth_equalityI)
  show "length (id_bits (rom[p div 8 := rom ! (p div 8) AND NOT (push_bit (p mod 8) 1)])) = length ((id_bits rom)[p := False])"
    by simp
next
  fix i
  assume "i < length (id_bits (rom[p div 8 := rom ! (p div 8) AND NOT (push_bit (p mod 8) 1)]))"
  then have i: "i < 8 * length rom" by simp
  then have d: "i div 8 < length rom" by simp
  have "i = p \<longleftrightarrow> i div 8 = p div 8 \<and> i mod 8 = p mod 8"
    by (metis div_mult_mod_eq)
  with i d assms
  show "id_bits (rom[p div 8 := rom ! (p div 8) AND NOT (push_bit (p mod 8) 1)]) ! i = (id_bits rom)[p := False] ! i"
    by (auto simp: nth_id_bits nth_list_update bit_simps)
qed

lemma id_bits_inj:
  assumes "id_bits a = id_bits b"
  shows "a = b"
proof (rule nth_equalityI)
  from assms have "length (id_bits a) = length (id_bits b)" by simp
  then show l: "length a = length b" by simp
  fix i assume i: "i < length a"
  show "a ! i = b ! i"
  proof (rule bit_word_eqI)
    fix j assume "j < LENGTH(8)"
    then have j: "j < 8" by simp
    with i have k: "8 * i + j < 8 * length a" by simp
    from j have "(8 * i + j) div 8 = i" "(8 * i + j) mod 8 = j" by simp_all
    with nth_id_bits [OF k] nth_id_bits [of "8 * i + j" b] k l assms
    show "bit (a ! i) j = bit (b ! i) j" by simp
  qed
qed

lemma mask_nonzero:
  assumes "j < 8"
  shows "push_bit j (1::u8) \<noteq> 0"
proof
  assume z: "push_bit j (1::u8) = 0"
  from assms have "bit (push_bit j (1::u8)) j" by (simp add: bit_simps)
  with z assms show False by simp
qed

lemma mask_shift:
  assumes "j < 8"
  shows "push_bit 1 (push_bit j (1::u8)) = (if j = 7 then 0 else push_bit (Suc j) 1)"
  using assms by (simp add: push_bit_push_bit)

subsection \<open>One pass of the loop on the simulated bus\<close>

lemma read_bit_sim:
  "read_bit sim_wire b =
     (if list_all (\<lambda>d. d = [] \<or> hd d \<noteq> complement b) (active b) then 1 else 0,
      b\<lparr>complement := \<not> complement b\<rparr>)"
  by (simp add: read_bit_def sim_wire_def sim_read_def)

lemma write_bit_sim:
  "length (command b) = 8 \<Longrightarrow>
     write_bit sim_wire g b = b\<lparr>active := sub (g \<noteq> 0) (active b), complement := False\<rparr>"
  by (simp add: write_bit_def sim_wire_def sim_write_def)

lemma two_reads_sim:
  assumes "active b = A" "\<forall>d \<in> set A. length d = Suc n" "\<not> complement b"
  shows "read_bit sim_wire b = (if sub False A = [] then 1 else 0, b\<lparr>complement := True\<rparr>)"
    and "read_bit sim_wire (b\<lparr>complement := True\<rparr>) = (if sub True A = [] then 1 else 0, b\<lparr>complement := False\<rparr>)"
proof -
  have ne: "\<forall>d \<in> set A. d \<noteq> []" using assms(2) by auto
  then have "list_all (\<lambda>d. d = [] \<or> hd d \<noteq> False) A = list_all (\<lambda>d. hd d) A"
    "list_all (\<lambda>d. d = [] \<or> hd d \<noteq> True) A = list_all (\<lambda>d. \<not> hd d) A"
    by (auto simp: list_all_iff)
  then show "read_bit sim_wire b = (if sub False A = [] then 1 else 0, b\<lparr>complement := True\<rparr>)"
    and "read_bit sim_wire (b\<lparr>complement := True\<rparr>) = (if sub True A = [] then 1 else 0, b\<lparr>complement := False\<rparr>)"
    using assms(1,3) by (simp_all add: read_bit_sim ones_iff [OF assms(2)] zeros_iff [OF assms(2)])
qed

lemma unat_pos: "p < 64 \<Longrightarrow> unat (of_nat (Suc p) :: u8) = Suc p"
  by (rule of_nat_inverse [OF refl]) simp

lemma Next_body_sim:
  fixes ld :: u8
  assumes "active b = A" "A \<noteq> []" "\<forall>d \<in> set A. length d = Suc n" "\<not> complement b"
    and "length (command b) = 8" "p < 64" "length rom = 8"
  defines "g \<equiv> (if sub False A = [] then True else if sub True A = [] then False
                  else if Suc p < unat ld then id_bits rom ! p else Suc p = unat ld)"
  shows "\<exists>rom' mk'.
     Next_body sim_wire ld (b, rom, of_nat (Suc p), int (p div 8), push_bit (p mod 8) 1, mk) =
       (False, (b\<lparr>active := sub g A, complement := False\<rparr>, rom', of_nat (Suc (Suc p)),
                int (Suc p div 8), push_bit (Suc p mod 8) 1, mk'))
     \<and> length rom' = 8 \<and> id_bits rom' = (id_bits rom)[p := g]
     \<and> unat mk' = (if sub False A \<noteq> [] \<and> sub True A \<noteq> [] \<and> \<not> g then Suc p else unat mk)"
proof -
  define mw :: u8 where "mw = of_nat (Suc p)"
  define kw :: u8 where "kw = push_bit (p mod 8) 1"
  define mw' :: u8 where "mw' = of_nat (Suc (Suc p))"
  define kw' :: u8 where "kw' = push_bit (Suc p mod 8) 1"
  note rd = two_reads_sim [OF assms(1,3,4)]
  have p8: "p < 8 * length rom" using assms(6,7) by simp
  have j: "p mod 8 < 8" by simp
  have m: "unat mw = Suc p" unfolding mw_def using assms(6) by (rule unat_pos)
  have lt: "mw < ld \<longleftrightarrow> Suc p < unat ld"
    by (simp only: word_less_nat_alt m)
  have eq: "mw = ld \<longleftrightarrow> Suc p = unat ld"
    by (simp only: word_unat_eq_iff m)
  have tst: "(rom ! (p div 8) AND kw \<noteq> 0) = id_bits rom ! p"
    unfolding kw_def mask_test nth_id_bits [OF p8] by (rule refl)
  have inc: "mw + 1 = mw'"
    by (simp add: mw_def mw'_def)
  have cmd: "length (command (b\<lparr>complement := False\<rparr>)) = 8" using assms(5) by simp
  have nk: "(if push_bit 1 kw = 0 then (int (p div 8) + 1, push_bit 1 kw + 1)
             else (int (p div 8), push_bit 1 kw))
            = (int (Suc p div 8), kw')"
  proof (cases "p mod 8 = 7")
    case True
    have "push_bit 1 kw = 0"
      unfolding kw_def mask_shift [OF j] using True by simp
    moreover have "Suc p div 8 = Suc (p div 8)" "Suc p mod 8 = 0"
      using True by (simp_all add: div_Suc mod_Suc)
    ultimately show ?thesis
      by (simp add: kw'_def)
  next
    case False
    define j' where "j' = Suc (p mod 8)"
    have j': "j' < 8" using j False by (simp add: j'_def)
    have "push_bit 1 kw = push_bit j' 1"
      unfolding kw_def mask_shift [OF j] j'_def using False by simp
    moreover have "push_bit j' (1::u8) \<noteq> 0"
      by (rule mask_nonzero [OF j'])
    moreover have "Suc p div 8 = p div 8" "Suc p mod 8 = j'"
      using False by (simp_all add: div_Suc mod_Suc j'_def)
    ultimately show ?thesis
      by (simp only: kw'_def if_False)
  qed
  define rom' where "rom' = (if g then rom[p div 8 := rom ! (p div 8) OR kw]
                             else rom[p div 8 := rom ! (p div 8) AND NOT kw])"
  define mk' where "mk' = (if sub False A \<noteq> [] \<and> sub True A \<noteq> [] \<and> \<not> g then mw else mk)"
  have ch: "choose_bit ld (if sub False A = [] then 2 else if sub True A = [] then 1 else 0)
              rom mw (int (p div 8)) kw mk
            = (if g then 1 else 0, mk')"
    using sub_some [OF assms(2,3)]
    by (auto simp: choose_bit_def Let_def g_def mk'_def lt eq tst)
  have x: "(if (if sub True A = [] then 1 else 0) = (1::int)
            then (if (if sub False A = [] then 1 else 0) = (1::int) then 2 else 0) OR 1
            else (if (if sub False A = [] then 1 else 0) = (1::int) then 2 else (0::int)))
           = (if sub False A = [] then 2 else if sub True A = [] then 1 else 0)"
    using sub_some [OF assms(2,3)] by auto
  have body: "Next_body sim_wire ld (b, rom, mw, int (p div 8), kw, mk) =
       (False, (b\<lparr>active := sub g A, complement := False\<rparr>, rom', mw', int (Suc p div 8), kw', mk'))"
    unfolding Next_body_def
    apply (simp only: split_conv Let_def rd x ch nk inc)
    apply (simp add: write_bit_sim [OF cmd] rom'_def assms(1))
    done
  have "length rom' = 8" using assms(7) by (simp add: rom'_def)
  moreover have "id_bits rom' = (id_bits rom)[p := g]"
    using id_bits_set [OF p8] id_bits_clear [OF p8] by (simp add: rom'_def kw_def)
  moreover have "unat mk' = (if sub False A \<noteq> [] \<and> sub True A \<noteq> [] \<and> \<not> g then Suc p else unat mk)"
    by (simp add: mk'_def m)
  ultimately show ?thesis using body unfolding mw_def kw_def mw'_def kw'_def by blast
qed

lemma sub_chosen_nonempty:
  assumes "A \<noteq> []" "\<forall>d \<in> set A. length d = Suc n"
  shows "sub (if sub False A = [] then True else if sub True A = [] then False else c) A \<noteq> []"
  using sub_some [OF assms] by (cases c) auto

lemma Next_loop_sim:
  fixes ld :: u8
  assumes "p + n = 64" "0 < n" "active b = A" "A \<noteq> []" "\<forall>d \<in> set A. length d = n"
    and "\<not> complement b" "length (command b) = 8" "length rom = 8"
  shows "\<exists>b' rom' mk'.
     Next_loop sim_wire ld (b, rom, of_nat (Suc p), int (p div 8), push_bit (p mod 8) 1, mk)
       = (b', rom', 65, 8, 1, mk')
     \<and> devices b' = devices b \<and> resets b' = resets b \<and> length rom' = 8
     \<and> walk (unat ld) p n A (id_bits rom, unat mk) = (id_bits rom', unat mk')"
  using assms
proof (induction n arbitrary: p b A rom mk)
  case 0
  then show ?case by simp
next
  case (Suc n)
  define g where "g = (if sub False A = [] then True else if sub True A = [] then False
                  else if Suc p < unat ld then id_bits rom ! p else Suc p = unat ld)"
  have p: "p < 64" using Suc.prems(1) by simp
  from Next_body_sim [OF Suc.prems(3,4,5,6,7) p Suc.prems(8), of ld mk, folded g_def]
  obtain rom1 mk1 where
    body: "Next_body sim_wire ld (b, rom, of_nat (Suc p), int (p div 8), push_bit (p mod 8) 1, mk) =
       (False, (b\<lparr>active := sub g A, complement := False\<rparr>, rom1, of_nat (Suc (Suc p)),
                int (Suc p div 8), push_bit (Suc p mod 8) 1, mk1))"
    and rom1: "length rom1 = 8" "id_bits rom1 = (id_bits rom)[p := g]"
    and mk1: "unat mk1 = (if sub False A \<noteq> [] \<and> sub True A \<noteq> [] \<and> \<not> g then Suc p else unat mk)"
    by blast
  have w: "walk (unat ld) p (Suc n) A (id_bits rom, unat mk) =
             walk (unat ld) (Suc p) n (sub g A) (id_bits rom1, unat mk1)"
    unfolding walk_Suc [OF Suc.prems(5)] Let_def g_def [symmetric] rom1 mk1 by (rule refl)
  show ?case
  proof (cases "n = 0")
    case True
    with Suc.prems(1) have p63: "p = 63" by simp
    have "Next_loop sim_wire ld (b, rom, of_nat (Suc p), int (p div 8), push_bit (p mod 8) 1, mk)
          = (b\<lparr>active := sub g A, complement := False\<rparr>, rom1, 65, 8, 1, mk1)"
      unfolding Next_loop.simps [of _ _ "(b, rom, of_nat (Suc p), int (p div 8), push_bit (p mod 8) 1, mk)"] body
      by (simp add: p63)
    moreover have "walk (unat ld) p (Suc n) A (id_bits rom, unat mk) = (id_bits rom1, unat mk1)"
      unfolding w using True by simp
    ultimately show ?thesis
      using rom1(1) by simp
  next
    case False
    then have n: "0 < n" by simp
    have lt: "int (Suc p div 8) < 8" using Suc.prems(1) n by simp
    have ne: "sub g A \<noteq> []"
      unfolding g_def by (rule sub_chosen_nonempty [OF Suc.prems(4,5)])
    from Suc.IH [of "Suc p" "b\<lparr>active := sub g A, complement := False\<rparr>" "sub g A" rom1 mk1]
      Suc.prems(1,7) n ne sub_length [OF Suc.prems(5)] rom1(1)
    obtain b' rom' mk' where
      "Next_loop sim_wire ld (b\<lparr>active := sub g A, complement := False\<rparr>, rom1,
         of_nat (Suc (Suc p)), int (Suc p div 8), push_bit (Suc p mod 8) 1, mk1) = (b', rom', 65, 8, 1, mk')"
      "devices b' = devices b" "resets b' = resets b" "length rom' = 8"
      "walk (unat ld) (Suc p) n (sub g A) (id_bits rom1, unat mk1) = (id_bits rom', unat mk')"
      by auto
    moreover have "Next_loop sim_wire ld (b, rom, of_nat (Suc p), int (p div 8), push_bit (p mod 8) 1, mk)
         = Next_loop sim_wire ld (b\<lparr>active := sub g A, complement := False\<rparr>, rom1,
         of_nat (Suc (Suc p)), int (Suc p div 8), push_bit (Suc p mod 8) 1, mk1)"
      unfolding Next_loop.simps [of _ _ "(b, rom, of_nat (Suc p), int (p div 8), push_bit (p mod 8) 1, mk)"] body
      using lt by simp
    ultimately show ?thesis
      unfolding w by simp
  qed
qed

subsection \<open>Next on the simulated bus\<close>

lemma reset_pulse_sim:
  "reset_pulse sim_wire b =
     (if devices b = [] then 1 else 0,
      b\<lparr>active := [], complement := False, command := [], resets := resets b + 1\<rparr>)"
  by (simp add: reset_pulse_def sim_wire_def sim_reset_def)

lemma id_bits_F0: "id_bits [0xF0] = [False, False, False, False, True, True, True, True]"
  by (simp add: id_bits_def upt_rec [of _ 8])

lemma transmit_search_sim:
  assumes "command b = []"
  shows "transmit_byte sim_wire 0xF0 b =
     b\<lparr>active := map id_bits (devices b), complement := False, command := id_bits [0xF0]\<rparr>"
  using assms
  by (simp add: transmit_byte_def transmit_body_def masks_def write_bit_def sim_wire_def
      sim_write_def id_bits_F0 Let_def)

lemma Next_sim:
  assumes "devices b = D" "D \<noteq> []" "\<forall>d \<in> set D. length d = 8" "length (ROM s) = 8"
    and "doneFlag s = 0"
  shows "\<exists>b' rom' mk'.
     length rom' = 8 \<and> devices b' = D \<and> resets b' = Suc (resets b)
     \<and> walk (unat (lastDiscrep s)) 0 64 (map id_bits D) (id_bits (ROM s), 0) = (id_bits rom', unat mk')
     \<and> Next sim_wire ROM8 (b, s) =
         (if dallas_crc8 rom' 8 = ROM8 (s\<lparr>ROM := rom'\<rparr>)
          then (1, b', s\<lparr>ROM := rom', lastDiscrep := mk', doneFlag := (if mk' = 0 then 1 else 0)\<rparr>)
          else (0, b', s\<lparr>ROM := rom', lastDiscrep := 0\<rparr>))"
proof -
  define b1 where "b1 = b\<lparr>active := [], complement := False, command := [], resets := resets b + 1\<rparr>"
  define b2 where "b2 = b1\<lparr>active := map id_bits (devices b1), complement := False, command := id_bits [0xF0]\<rparr>"
  have rp: "reset_pulse sim_wire b = (0, b1)"
    using assms(1,2) by (simp add: reset_pulse_sim b1_def)
  have tx: "transmit_byte sim_wire 0xF0 b1 = b2"
    unfolding b2_def by (rule transmit_search_sim) (simp add: b1_def)
  have A: "active b2 = map id_bits D" "\<not> complement b2" "length (command b2) = 8"
    using assms(1) by (simp_all add: b2_def b1_def id_bits_F0)
  have ne: "map id_bits D \<noteq> []" using assms(2) by simp
  have len: "\<forall>d \<in> set (map id_bits D). length d = 64" using assms(3) by simp
  from Next_loop_sim [of 0 64 b2 "map id_bits D" "ROM s" "lastDiscrep s" 0, OF _ _ A(1) ne len A(2,3) assms(4)]
  obtain b' rom' mk' where
    loop: "Next_loop sim_wire (lastDiscrep s) (b2, ROM s, 1, 0, 1, 0) = (b', rom', 65, 8, 1, mk')"
    and b': "devices b' = devices b2" "resets b' = resets b2"
    and rom': "length rom' = 8"
    and w: "walk (unat (lastDiscrep s)) 0 64 (map id_bits D) (id_bits (ROM s), 0) = (id_bits rom', unat mk')"
    by auto
  have "Next sim_wire ROM8 (b, s) =
         (if dallas_crc8 rom' 8 = ROM8 (s\<lparr>ROM := rom'\<rparr>)
          then (1, b', s\<lparr>ROM := rom', lastDiscrep := mk', doneFlag := (if mk' = 0 then 1 else 0)\<rparr>)
          else (0, b', s\<lparr>ROM := rom', lastDiscrep := 0\<rparr>))"
    unfolding Next_def
    by (simp add: rp tx loop assms(5))
  moreover have "devices b' = D" "resets b' = Suc (resets b)"
    using b' assms(1) by (simp_all add: b2_def b1_def)
  ultimately show ?thesis using rom' w by blast
qed

lemma Next_sim_done:
  assumes "doneFlag s \<noteq> 0 \<or> devices b = []"
  shows "Next sim_wire ROM8 (b, s) =
     (0, b\<lparr>active := [], complement := False, command := [], resets := resets b + 1\<rparr>,
      s\<lparr>lastDiscrep := 0\<rparr>)"
  using assms unfolding Next_def by (auto simp: reset_pulse_sim)

subsection \<open>Bits back to bytes\<close>

lemma byte_of_id_bits:
  assumes "i < length rom"
  shows "take 8 (drop (8 * i) (id_bits rom)) = map (bit (rom ! i)) [0 ..< 8]"
proof (rule nth_equalityI)
  show "length (take 8 (drop (8 * i) (id_bits rom))) = length (map (bit (rom ! i)) [0 ..< 8])"
    using assms by simp
next
  fix j
  assume "j < length (take 8 (drop (8 * i) (id_bits rom)))"
  then have j: "j < 8" by simp
  with assms have k: "8 * i + j < 8 * length rom" by simp
  from j have "(8 * i + j) div 8 = i" "(8 * i + j) mod 8 = j" by simp_all
  with j k show "take 8 (drop (8 * i) (id_bits rom)) ! j = map (bit (rom ! i)) [0 ..< 8] ! j"
    by (simp add: nth_id_bits)
qed

lemma rom_of_id_bits: "rom_of (id_bits rom) = rom"
proof (rule nth_equalityI)
  show "length (rom_of (id_bits rom)) = length rom"
    by (simp add: rom_of_def)
next
  fix i
  assume "i < length (rom_of (id_bits rom))"
  then have i: "i < length rom" by (simp add: rom_of_def)
  have "horner_sum of_bool 2 (map (bit (rom ! i)) [0 ..< 8]) = take_bit 8 (rom ! i)"
    by (rule horner_sum_bit_eq_take_bit)
  also have "\<dots> = rom ! i"
    by (simp add: take_bit_word_eq_self)
  finally show "rom_of (id_bits rom) ! i = rom ! i"
    using i by (simp add: rom_of_def byte_of_id_bits)
qed

subsection \<open>The order of discovery\<close>

lemma length_search_order [simp]: "length (search_order D) = length (leaves 64 (map id_bits D))"
  by (simp add: search_order_def)

lemma order_facts:
  assumes "D \<noteq> []" "\<forall>d \<in> set D. length d = 8" "i < length (search_order D)"
  shows "search_order D ! i \<in> set D"
    and "id_bits (search_order D ! i) = leaves 64 (map id_bits D) ! i"
    and "length (search_order D ! i) = 8"
proof -
  have ne: "map id_bits D \<noteq> []" using assms(1) by simp
  have len: "\<forall>e \<in> set (map id_bits D). length e = 64" using assms(2) by simp
  from assms(3) have "leaves 64 (map id_bits D) ! i \<in> set (leaves 64 (map id_bits D))"
    by simp
  then have "leaves 64 (map id_bits D) ! i \<in> set (map id_bits D)"
    unfolding set_leaves [OF ne len] .
  then obtain d where d: "d \<in> set D" "leaves 64 (map id_bits D) ! i = id_bits d"
    by auto
  with assms(3) have o: "search_order D ! i = d"
    by (simp add: search_order_def rom_of_id_bits)
  from d o show "search_order D ! i \<in> set D"
    and "id_bits (search_order D ! i) = leaves 64 (map id_bits D) ! i"
    by simp_all
  from d(1) o assms(2) show "length (search_order D ! i) = 8" by simp
qed

lemma set_search_order:
  assumes "D \<noteq> []" "\<forall>d \<in> set D. length d = 8"
  shows "set (search_order D) = set D"
proof -
  have ne: "map id_bits D \<noteq> []" using assms(1) by simp
  have len: "\<forall>e \<in> set (map id_bits D). length e = 64" using assms(2) by simp
  have "set (search_order D) = rom_of ` set (map id_bits D)"
    unfolding search_order_def set_map set_leaves [OF ne len] ..
  also have "\<dots> = set D"
    by (simp add: image_image rom_of_id_bits)
  finally show ?thesis .
qed

lemma distinct_search_order:
  assumes "D \<noteq> []" "\<forall>d \<in> set D. length d = 8"
  shows "distinct (search_order D)"
proof -
  have ne: "map id_bits D \<noteq> []" using assms(1) by simp
  have len: "\<forall>e \<in> set (map id_bits D). length e = 64" using assms(2) by simp
  have "inj_on rom_of (set (leaves 64 (map id_bits D)))"
    unfolding set_leaves [OF ne len]
    by (rule inj_onI) (auto simp: rom_of_id_bits)
  then show ?thesis
    unfolding search_order_def by (simp add: distinct_map distinct_leaves)
qed

lemma length_search_order_distinct:
  assumes "D \<noteq> []" "\<forall>d \<in> set D. length d = 8" "distinct D"
  shows "length (search_order D) = length D"
  using distinct_card [OF distinct_search_order [OF assms(1,2)]] distinct_card [OF assms(3)]
    set_search_order [OF assms(1,2)]
  by simp

lemma marker_at_last:
  assumes "D \<noteq> []" "\<forall>d \<in> set D. length d = 8" "i < length (search_order D)"
  shows "marker_at D i = 0 \<longleftrightarrow> Suc i = length (search_order D)"
proof -
  have ne: "map id_bits D \<noteq> []" using assms(1) by simp
  have len: "\<forall>e \<in> set (map id_bits D). length e = 64" using assms(2) by simp
  from assms(3) have i: "i < length (leaves 64 (map id_bits D))" by simp
  from mark_last [OF ne len i, of 0 0] i show ?thesis
    unfolding marker_at_def length_search_order by (cases "Suc i = length (leaves 64 (map id_bits D))") auto
qed

subsection \<open>Passes in the order of discovery\<close>

lemma First_pass:
  assumes "devices b = D" "D \<noteq> []" "\<forall>d \<in> set D. length d = 8" "length (ROM s) = 8"
  shows "\<exists>b' mk'.
     devices b' = D \<and> resets b' = Suc (resets b) \<and> unat mk' = marker_at D 0
     \<and> First sim_wire ROM8 (b, s) =
         (if dallas_crc8 (search_order D ! 0) 8
               = ROM8 (s\<lparr>lastDiscrep := 0, doneFlag := 0, ROM := search_order D ! 0\<rparr>)
          then (1, b', s\<lparr>lastDiscrep := 0, doneFlag := 0, ROM := search_order D ! 0,
                           lastDiscrep := mk', doneFlag := (if mk' = 0 then 1 else 0)\<rparr>)
          else (0, b', s\<lparr>lastDiscrep := 0, doneFlag := 0, ROM := search_order D ! 0,
                           lastDiscrep := 0\<rparr>))"
proof -
  let ?A = "map id_bits D" and ?s = "s\<lparr>lastDiscrep := 0, doneFlag := 0\<rparr>"
  have ne: "?A \<noteq> []" using assms(2) by simp
  have len: "\<forall>e \<in> set ?A. length e = 64" using assms(3) by simp
  have lv: "leaves 64 ?A \<noteq> []" by (rule leaves_nonempty [OF ne len])
  then have i0: "0 < length (search_order D)" by simp
  from Next_sim [OF assms(1,2,3), of ?s ROM8] assms(4)
  obtain b' rom' mk' where
    r: "length rom' = 8" "devices b' = D" "resets b' = Suc (resets b)"
    and w: "walk 0 0 64 ?A (id_bits (ROM s), 0) = (id_bits rom', unat mk')"
    and N: "Next sim_wire ROM8 (b, ?s) =
         (if dallas_crc8 rom' 8 = ROM8 (?s\<lparr>ROM := rom'\<rparr>)
          then (1, b', ?s\<lparr>ROM := rom', lastDiscrep := mk', doneFlag := (if mk' = 0 then 1 else 0)\<rparr>)
          else (0, b', ?s\<lparr>ROM := rom', lastDiscrep := 0\<rparr>))"
    by auto
  have wf: "walk 0 0 64 ?A (id_bits (ROM s), 0) =
          (take 0 (id_bits (ROM s)) @ hd (leaves 64 ?A) @ drop (0 + 64) (id_bits (ROM s)),
           mark 0 ?A (hd (leaves 64 ?A)) 0)"
    using assms(4) by (intro walk_first [OF ne len]) simp_all
  have cut: "take 0 (id_bits (ROM s)) @ hd (leaves 64 ?A) @ drop (0 + 64) (id_bits (ROM s))
               = hd (leaves 64 ?A)"
    using assms(4) by simp
  from w [unfolded wf cut]
  have "id_bits rom' = hd (leaves 64 ?A)" "unat mk' = mark 0 ?A (hd (leaves 64 ?A)) 0"
    by auto
  with lv have e: "id_bits rom' = leaves 64 ?A ! 0" and m: "unat mk' = marker_at D 0"
    by (simp_all add: hd_conv_nth marker_at_def)
  from e have "rom_of (id_bits rom') = rom_of (leaves 64 ?A ! 0)" by simp
  with lv have rom': "rom' = search_order D ! 0"
    by (simp add: rom_of_id_bits search_order_def)
  have "First sim_wire ROM8 (b, s) = Next sim_wire ROM8 (b, ?s)"
    by (simp add: First_def)
  with r(2,3) m N [unfolded rom'] show ?thesis
    by (intro exI [of _ b'] exI [of _ mk']) simp
qed

lemma Next_pass:
  assumes "devices b = D" "D \<noteq> []" "\<forall>d \<in> set D. length d = 8"
    and "Suc i < length (search_order D)" and "found_at D i s"
  shows "\<exists>b' mk'.
     devices b' = D \<and> resets b' = Suc (resets b) \<and> unat mk' = marker_at D (Suc i)
     \<and> Next sim_wire ROM8 (b, s) =
         (if dallas_crc8 (search_order D ! Suc i) 8 = ROM8 (s\<lparr>ROM := search_order D ! Suc i\<rparr>)
          then (1, b', s\<lparr>ROM := search_order D ! Suc i, lastDiscrep := mk',
                           doneFlag := (if mk' = 0 then 1 else 0)\<rparr>)
          else (0, b', s\<lparr>ROM := search_order D ! Suc i, lastDiscrep := 0\<rparr>))"
proof -
  let ?A = "map id_bits D"
  have ne: "?A \<noteq> []" using assms(2) by simp
  have len: "\<forall>e \<in> set ?A. length e = 64" using assms(3) by simp
  from assms(4) have i: "i < length (search_order D)" and Si: "Suc i < length (leaves 64 ?A)"
    by simp_all
  note o = order_facts [OF assms(2,3) i]
  from assms(5) have R: "ROM s = search_order D ! i" and L: "unat (lastDiscrep s) = marker_at D i"
    and dn: "doneFlag s = (if marker_at D i = 0 then 1 else 0)"
    by (simp_all add: found_at_def)
  from marker_at_last [OF assms(2,3) i] assms(4) have "marker_at D i \<noteq> 0" by simp
  with dn have d0: "doneFlag s = 0" by simp
  have l8: "length (ROM s) = 8" using o(3) R by simp
  from Next_sim [OF assms(1,2,3) l8 d0, of ROM8]
  obtain b' rom' mk' where
    r: "length rom' = 8" "devices b' = D" "resets b' = Suc (resets b)"
    and w: "walk (unat (lastDiscrep s)) 0 64 ?A (id_bits (ROM s), 0) = (id_bits rom', unat mk')"
    and N: "Next sim_wire ROM8 (b, s) =
         (if dallas_crc8 rom' 8 = ROM8 (s\<lparr>ROM := rom'\<rparr>)
          then (1, b', s\<lparr>ROM := rom', lastDiscrep := mk', doneFlag := (if mk' = 0 then 1 else 0)\<rparr>)
          else (0, b', s\<lparr>ROM := rom', lastDiscrep := 0\<rparr>))"
    by auto
  have "take 64 (drop 0 (id_bits (ROM s))) = id_bits (ROM s)"
    using l8 by simp
  also have "\<dots> = leaves 64 ?A ! i"
    unfolding R by (rule o(2))
  finally have tk: "take 64 (drop 0 (id_bits (ROM s))) = leaves 64 ?A ! i" .
  have wn: "walk (unat (lastDiscrep s)) 0 64 ?A (id_bits (ROM s), 0) =
          (take 0 (id_bits (ROM s)) @ (leaves 64 ?A ! Suc i) @ drop (0 + 64) (id_bits (ROM s)),
           mark 0 ?A (leaves 64 ?A ! Suc i) 0)"
    using l8 L by (intro walk_next [OF ne len Si tk]) (simp_all add: marker_at_def)
  have cut: "take 0 (id_bits (ROM s)) @ (leaves 64 ?A ! Suc i) @ drop (0 + 64) (id_bits (ROM s))
               = leaves 64 ?A ! Suc i"
    using l8 by simp
  from w [unfolded wn cut]
  have e: "id_bits rom' = leaves 64 ?A ! Suc i" and m: "unat mk' = marker_at D (Suc i)"
    by (auto simp: marker_at_def)
  from e have "rom_of (id_bits rom') = rom_of (leaves 64 ?A ! Suc i)" by simp
  with Si have rom': "rom' = search_order D ! Suc i"
    by (simp add: rom_of_id_bits search_order_def)
  from r(2,3) m N [unfolded rom'] show ?thesis
    by (intro exI [of _ b'] exI [of _ mk']) simp
qed

subsection \<open>The loop of FindDevices\<close>

lemma store_ROM_sim:
  assumes "length (ROM s) = 8"
  shows "store_ROM s = s\<lparr>numROMs := numROMs s + 1, FoundROM := (FoundROM s)(numROMs s + 1 := ROM s)\<rparr>"
proof -
  have "map (\<lambda>m. ROM s ! m) [0 ..< 8] = ROM s"
    using map_nth [of "ROM s"] assms by simp
  then show ?thesis
    by (simp add: store_ROM_def Let_def)
qed

lemma FindDevices_loop_sim:
  assumes "devices b = D" "D \<noteq> []" "\<forall>d \<in> set D. length d = 8" "\<forall>d \<in> set D. dallas_crc8 d 8 = c"
    and "i < length (search_order D)" "i \<le> 5" "found_at D i s" "numROMs s = int i - 1"
  shows "\<exists>b' s'. FindDevices_loop sim_wire (\<lambda>s. c) (b, s) = (b', s') \<and> devices b' = D
     \<and> numROMs s' = min (int (length (search_order D)) - 1) 5
     \<and> (\<forall>j. i \<le> j \<and> j \<le> 5 \<and> j < length (search_order D) \<longrightarrow> FoundROM s' (int j) = search_order D ! j)
     \<and> (\<forall>j < int i. FoundROM s' j = FoundROM s j) \<and> length (ROM s') = 8"
  using assms(1,5,6,7,8)
proof (induction "length (search_order D) - i" arbitrary: i b s)
  case 0
  then show ?case by simp
next
  case (Suc k)
  note o = order_facts [OF assms(2,3) Suc.prems(2)]
  from Suc.prems(4) have R: "ROM s = search_order D ! i"
    and dn: "doneFlag s = (if marker_at D i = 0 then 1 else 0)"
    by (simp_all add: found_at_def)
  have l8: "length (ROM s) = 8" using o(3) R by simp
  define s1 where "s1 = s\<lparr>numROMs := int i, FoundROM := (FoundROM s)(int i := ROM s)\<rparr>"
  have st: "store_ROM s = s1"
    using Suc.prems(5) by (simp add: store_ROM_sim [OF l8] s1_def)
  have f1: "found_at D i s1"
    using Suc.prems(4) by (simp add: found_at_def s1_def)
  show ?case
  proof (cases "Suc i = length (search_order D)")
    case True
    with marker_at_last [OF assms(2,3) Suc.prems(2)] dn have "doneFlag s1 \<noteq> 0"
      by (simp add: s1_def)
    then have N: "Next sim_wire (\<lambda>s. c) (b, s1) =
       (0, b\<lparr>active := [], complement := False, command := [], resets := resets b + 1\<rparr>,
        s1\<lparr>lastDiscrep := 0\<rparr>)"
      by (intro Next_sim_done) simp
    have "FindDevices_loop sim_wire (\<lambda>s. c) (b, s) =
       (b\<lparr>active := [], complement := False, command := [], resets := resets b + 1\<rparr>,
        s1\<lparr>lastDiscrep := 0\<rparr>)"
      by (simp add: FindDevices_loop.simps [of _ _ "(b, s)"] st N)
    moreover have "min (int (length (search_order D)) - 1) 5 = int i"
      using True Suc.prems(3) by (simp flip: True)
    moreover have "FoundROM (s1\<lparr>lastDiscrep := 0\<rparr>) (int j) = search_order D ! j"
      if "i \<le> j \<and> j \<le> 5 \<and> j < length (search_order D)" for j
    proof -
      from that True have "j = i" by linarith
      then show ?thesis by (simp add: s1_def R)
    qed
    moreover have "FoundROM (s1\<lparr>lastDiscrep := 0\<rparr>) j = FoundROM s j" if "j < int i" for j
      using that by (simp add: s1_def)
    moreover have "numROMs (s1\<lparr>lastDiscrep := 0\<rparr>) = int i" "length (ROM (s1\<lparr>lastDiscrep := 0\<rparr>)) = 8"
      using l8 by (simp_all add: s1_def)
    ultimately show ?thesis
      using Suc.prems(1)
      by (intro exI [of _ "b\<lparr>active := [], complement := False, command := [], resets := resets b + 1\<rparr>"]
            exI [of _ "s1\<lparr>lastDiscrep := 0\<rparr>"])
        (simp del: length_search_order)
  next
    case False
    with Suc.prems(2) have Si: "Suc i < length (search_order D)" by simp
    note o' = order_facts [OF assms(2,3) Si]
    from Next_pass [OF Suc.prems(1) assms(2,3) Si f1, of "\<lambda>s. c"] o'(1) assms(4)
    obtain b' mk' where
      b': "devices b' = D" and mk': "unat mk' = marker_at D (Suc i)"
      and N: "Next sim_wire (\<lambda>s. c) (b, s1) =
         (1, b', s1\<lparr>ROM := search_order D ! Suc i, lastDiscrep := mk',
                       doneFlag := (if mk' = 0 then 1 else 0)\<rparr>)"
      by auto
    define s2 where "s2 = s1\<lparr>ROM := search_order D ! Suc i, lastDiscrep := mk',
                       doneFlag := (if mk' = 0 then 1 else 0)\<rparr>"
    have N2: "Next sim_wire (\<lambda>s. c) (b, s1) = (1, b', s2)"
      unfolding N s2_def by (rule refl)
    have ni: "numROMs s2 = int i"
      by (simp add: s2_def s1_def)
    have z: "mk' = 0 \<longleftrightarrow> marker_at D (Suc i) = 0"
      using mk' by (simp add: unat_eq_0 [symmetric])
    have f2: "found_at D (Suc i) s2"
      by (simp add: found_at_def s2_def mk' z)
    have n2: "numROMs s2 = int (Suc i) - 1" "length (ROM s2) = 8"
      using o'(3) by (simp_all add: s2_def s1_def)
    have rows: "FoundROM s2 = (FoundROM s)(int i := search_order D ! i)"
      by (simp add: s2_def s1_def R)
    show ?thesis
    proof (cases "i < 5")
      case True
      have k: "k = length (search_order D) - Suc i" using Suc.hyps(2) by simp
      from True have i5: "Suc i \<le> 5" by simp
      from Suc.hyps(1) [OF k b' Si i5 f2 n2(1)]
      obtain b'' s'' where
        L: "FindDevices_loop sim_wire (\<lambda>s. c) (b', s2) = (b'', s'')" "devices b'' = D"
          "numROMs s'' = min (int (length (search_order D)) - 1) 5"
          "\<forall>j. Suc i \<le> j \<and> j \<le> 5 \<and> j < length (search_order D) \<longrightarrow> FoundROM s'' (int j) = search_order D ! j"
          "\<forall>j < int (Suc i). FoundROM s'' j = FoundROM s2 j" "length (ROM s'') = 8"
        by blast
      have "FindDevices_loop sim_wire (\<lambda>s. c) (b, s) = (b'', s'')"
        using True L(1) by (simp add: FindDevices_loop.simps [of _ _ "(b, s)"] st N2 ni)
      moreover have "FoundROM s'' (int j) = search_order D ! j"
        if "i \<le> j \<and> j \<le> 5 \<and> j < length (search_order D)" for j
      proof (cases "j = i")
        case True
        with L(5) rows show ?thesis by simp
      next
        case False
        with that L(4) show ?thesis by simp
      qed
      moreover have "FoundROM s'' j = FoundROM s j" if "j < int i" for j
        using that L(5) rows by simp
      ultimately show ?thesis
        using L(2,3,6) by blast
    next
      case False
      with Suc.prems(3) have i5: "i = 5" by simp
      have "FindDevices_loop sim_wire (\<lambda>s. c) (b, s) = (b', s2)"
        using i5 by (simp add: FindDevices_loop.simps [of _ _ "(b, s)"] st N2 ni)
      moreover have "min (int (length (search_order D)) - 1) 5 = 5"
        using Si i5 by simp
      moreover have "FoundROM s2 (int j) = search_order D ! j"
        if "i \<le> j \<and> j \<le> 5 \<and> j < length (search_order D)" for j
      proof -
        from that i5 have "j = i" by linarith
        then show ?thesis by (simp add: rows)
      qed
      moreover have "FoundROM s2 j = FoundROM s j" if "j < int i" for j
        using that rows by simp
      ultimately show ?thesis
        using b' n2 i5 by auto
    qed
  qed
qed

subsection \<open>FindDevices on the simulated bus\<close>

lemma search_order_Nil: "search_order [] = []"
proof -
  have "leaves (Suc n) [] = []" for n by (simp add: sub_def leaves.simps(2))
  from this [of 63] show ?thesis by (simp add: search_order_def)
qed

lemma found_rows:
  assumes "numROMs s = min (int n - 1) 5" "0 < n"
    and "\<forall>j. j \<le> 5 \<and> j < n \<longrightarrow> FoundROM s (int j) = xs ! j" "length xs = n"
  shows "found s = take 6 xs"
proof (rule nth_equalityI)
  show l: "length (found s) = length (take 6 xs)"
    using assms(1,2,4) by (simp add: found_def)
  fix j
  assume "j < length (found s)"
  with l assms(4) have j: "j < 6" "j < n" by simp_all
  then have "int j \<le> numROMs s" using assms(1) by simp
  then have "found s ! j = FoundROM s (int j)"
    unfolding found_def using nth_upto [of 0 j "numROMs s"] by simp
  with assms(3) j show "found s ! j = take 6 xs ! j" by simp
qed

lemma FindDevices_sim:
  assumes "devices b = D" "\<forall>d \<in> set D. length d = 8" "\<forall>d \<in> set D. dallas_crc8 d 8 = c"
    and "length (ROM s) = 8"
  shows "\<exists>b' s'. FindDevices sim_wire (\<lambda>s. c) (b, s) = (b', s') \<and> devices b' = D
     \<and> length (ROM s') = 8 \<and> found s' = take 6 (search_order D)
     \<and> numROMs s' = min (int (length (search_order D)) - 1) 5"
proof (cases "D = []")
  case True
  then have "FindDevices sim_wire (\<lambda>s. c) (b, s) =
     (b\<lparr>active := [], complement := False, command := [], resets := resets b + 1\<rparr>,
      s\<lparr>numROMs := - 1\<rparr>)"
    using assms(1) by (simp add: FindDevices_def reset_pulse_sim)
  then show ?thesis
    using True assms(1,4) by (simp add: found_def search_order_Nil)
next
  case False
  define b1 where "b1 = b\<lparr>active := [], complement := False, command := [], resets := resets b + 1\<rparr>"
  define s1 where "s1 = s\<lparr>numROMs := - 1\<rparr>"
  have rp: "reset_pulse sim_wire b = (0, b1)"
    using False assms(1) by (simp add: reset_pulse_sim b1_def)
  have d1: "devices b1 = D" "length (ROM s1) = 8"
    using assms(1,4) by (simp_all add: b1_def s1_def)
  have ne: "map id_bits D \<noteq> []" using False by simp
  have len: "\<forall>e \<in> set (map id_bits D). length e = 64" using assms(2) by simp
  have i0: "0 < length (search_order D)"
    using leaves_nonempty [OF ne len] by simp
  note o = order_facts [OF False assms(2) i0]
  from First_pass [OF d1(1) False assms(2) d1(2), of "\<lambda>s. c"] o(1) assms(3)
  obtain b2 mk' where
    b2: "devices b2 = D" and mk': "unat mk' = marker_at D 0"
    and F: "First sim_wire (\<lambda>s. c) (b1, s1) =
       (1, b2, s1\<lparr>lastDiscrep := 0, doneFlag := 0, ROM := search_order D ! 0,
                     lastDiscrep := mk', doneFlag := (if mk' = 0 then 1 else 0)\<rparr>)"
    by auto
  define s2 where "s2 = s1\<lparr>lastDiscrep := 0, doneFlag := 0, ROM := search_order D ! 0,
                     lastDiscrep := mk', doneFlag := (if mk' = 0 then 1 else 0)\<rparr>"
  have F2: "First sim_wire (\<lambda>s. c) (b1, s1) = (1, b2, s2)"
    unfolding F s2_def by (rule refl)
  have z: "mk' = 0 \<longleftrightarrow> marker_at D 0 = 0"
    using mk' by (simp add: unat_eq_0 [symmetric])
  have f2: "found_at D 0 s2"
    by (simp add: found_at_def s2_def mk' z)
  have n2: "numROMs s2 = int 0 - 1"
    by (simp add: s2_def s1_def)
  from FindDevices_loop_sim [OF b2 False assms(2,3) i0 _ f2 n2]
  obtain b' s' where
    L: "FindDevices_loop sim_wire (\<lambda>s. c) (b2, s2) = (b', s')" "devices b' = D"
      "numROMs s' = min (int (length (search_order D)) - 1) 5"
      "\<forall>j. 0 \<le> j \<and> j \<le> 5 \<and> j < length (search_order D) \<longrightarrow> FoundROM s' (int j) = search_order D ! j"
      "length (ROM s') = 8"
    by auto
  have "FindDevices sim_wire (\<lambda>s. c) (b, s) = (b', s')"
    by (simp add: FindDevices_def rp s1_def [symmetric] F2 L(1))
  moreover have "found s' = take 6 (search_order D)"
    using L(3,4) i0 by (intro found_rows [where n = "length (search_order D)"]) simp_all
  ultimately show ?thesis
    using L(2,3,5) by blast
qed

subsection \<open>Candidates that fail the test of Next\<close>

lemma FindDevices_sim_reject_first:
  assumes "devices b = D" "D \<noteq> []" "\<forall>d \<in> set D. length d = 8" "length (ROM s) = 8"
    and rej: "\<And>s'. lastDiscrep s' = 0 \<Longrightarrow> ROM s' = search_order D ! 0 \<Longrightarrow>
                ROM8 s' \<noteq> dallas_crc8 (search_order D ! 0) 8"
  shows "\<exists>b' s'. FindDevices sim_wire ROM8 (b, s) = (b', s') \<and> found s' = []
     \<and> numROMs s' = - 1 \<and> resets b' = resets b + 2 \<and> devices b' = D"
proof -
  define b1 where "b1 = b\<lparr>active := [], complement := False, command := [], resets := resets b + 1\<rparr>"
  define s1 where "s1 = s\<lparr>numROMs := - 1\<rparr>"
  have rp: "reset_pulse sim_wire b = (0, b1)"
    using assms(1,2) by (simp add: reset_pulse_sim b1_def)
  have d1: "devices b1 = D" "length (ROM s1) = 8" "resets b1 = resets b + 1"
    using assms(1,4) by (simp_all add: b1_def s1_def)
  have "ROM8 (s1\<lparr>lastDiscrep := 0, doneFlag := 0, ROM := search_order D ! 0\<rparr>)
          \<noteq> dallas_crc8 (search_order D ! 0) 8"
    by (rule rej) simp_all
  with First_pass [OF d1(1) assms(2,3) d1(2), of ROM8]
  obtain b2 where
    b2: "devices b2 = D" "resets b2 = Suc (resets b1)"
    and F: "First sim_wire ROM8 (b1, s1) =
       (0, b2, s1\<lparr>lastDiscrep := 0, doneFlag := 0, ROM := search_order D ! 0, lastDiscrep := 0\<rparr>)"
    by auto
  have "FindDevices sim_wire ROM8 (b, s) =
      (b2, s1\<lparr>lastDiscrep := 0, doneFlag := 0, ROM := search_order D ! 0, lastDiscrep := 0\<rparr>)"
    by (simp add: FindDevices_def rp s1_def [symmetric] F)
  then show ?thesis
    using b2 d1(3) by (simp add: found_def s1_def)
qed


subsection \<open>The table of devices\<close>

lemma sensors_valid: "\<forall>d \<in> set sensors. length d = 8 \<and> dallas_crc8 d 8 = 0"
proof -
  have "list_all (\<lambda>d. length d = 8 \<and> dallas_crc8 d 8 = 0) sensors"
    by code_simp
  then show ?thesis by (simp add: list_all_iff)
qed

lemma sensors_distinct: "distinct sensors" "length sensors = 6"
  by (simp_all add: sensors_def)

lemma startup_ROM: "length (ROM startup) = 8"
  by (simp add: startup_def)

lemma search_order_short:
  assumes "\<forall>d \<in> set D. length d = 8" "distinct D"
  shows "length (search_order D) = length D" and "set (search_order D) = set D"
    and "distinct (search_order D)"
proof -
  show "length (search_order D) = length D"
    using length_search_order_distinct [OF _ assms] search_order_Nil
    by (cases "D = []") (simp_all del: length_search_order)
  show "set (search_order D) = set D"
    using set_search_order [OF _ assms(1)] search_order_Nil by (cases "D = []") simp_all
  show "distinct (search_order D)"
    using distinct_search_order [OF _ assms(1)] search_order_Nil by (cases "D = []") simp_all
qed

lemma search_order_single:
  assumes "length d = 8"
  shows "search_order [d] = [d]"
proof -
  have "length (search_order [d]) = length [d]" "set (search_order [d]) = set [d]"
    using assms by (intro search_order_short; simp)+
  then show ?thesis
    by (cases "search_order [d]") (simp_all del: length_search_order)
qed

lemma FindDevices_single:
  assumes "length d = 8" "length (ROM s) = 8"
  shows "found (snd (FindDevices sim_wire (\<lambda>s. v) (bus_of [d], s)))
           = (if dallas_crc8 d 8 = v then [d] else [])"
proof (cases "dallas_crc8 d 8 = v")
  case True
  from FindDevices_sim [of "bus_of [d]" "[d]" v s] True assms
  show ?thesis by (auto simp: bus_of_def search_order_single simp del: length_search_order)
next
  case False
  from FindDevices_sim_reject_first [of "bus_of [d]" "[d]" s "\<lambda>s. v"] False assms
  show ?thesis by (auto simp: bus_of_def search_order_single simp del: length_search_order)
qed

text \<open>
  C1, for devices that pass the test at the end of \<open>Next\<close>: on a simulated bus with
  \<open>N <= 5\<close> distinct 8-byte identifiers, each of which has as the CRC-8 of its 8 bytes the
  value \<open>c\<close> that \<open>Next\<close> compares it with (the byte the code reads at \<open>ROM[8]\<close>, here the
  same throughout the search), \<open>FindDevices\<close> leaves a table of exactly \<open>N\<close> entries, which
  are the identifiers of the bus as a set, and a second run on the unchanged bus leaves the
  same table.
\<close>

theorem FindDevices_discovers_all:
  assumes "devices b = D" "distinct D" "length D \<le> 5"
    and "\<forall>d \<in> set D. length d = 8 \<and> dallas_crc8 d 8 = c" "length (ROM s) = 8"
  shows "length (found (snd (FindDevices sim_wire (\<lambda>s. c) (b, s)))) = length D
     \<and> set (found (snd (FindDevices sim_wire (\<lambda>s. c) (b, s)))) = set D
     \<and> found (snd (FindDevices sim_wire (\<lambda>s. c) (FindDevices sim_wire (\<lambda>s. c) (b, s))))
         = found (snd (FindDevices sim_wire (\<lambda>s. c) (b, s)))"
proof -
  from assms(4) have len: "\<forall>d \<in> set D. length d = 8" and crc: "\<forall>d \<in> set D. dallas_crc8 d 8 = c"
    by simp_all
  note so = search_order_short [OF len assms(2)]
  from FindDevices_sim [OF assms(1) len crc assms(5)]
  obtain b' s' where 1: "FindDevices sim_wire (\<lambda>s. c) (b, s) = (b', s')" "devices b' = D"
    "length (ROM s') = 8" "found s' = take 6 (search_order D)"
    by blast
  from FindDevices_sim [OF 1(2) len crc 1(3)]
  obtain b'' s'' where 2: "FindDevices sim_wire (\<lambda>s. c) (b', s') = (b'', s'')"
    "found s'' = take 6 (search_order D)"
    by blast
  from so(1) assms(3) have "take 6 (search_order D) = search_order D"
    by (simp del: length_search_order)
  with 1 2 so show ?thesis
    by (simp del: length_search_order)
qed

theorem FindDevices_discovers_all_witness:
  "length (found (snd (FindDevices sim_wire (\<lambda>s. 0) (bus_of (take 3 sensors), startup)))) = 3
   \<and> set (found (snd (FindDevices sim_wire (\<lambda>s. 0) (bus_of (take 3 sensors), startup))))
       = set (take 3 sensors)
   \<and> found (snd (FindDevices sim_wire (\<lambda>s. 0)
         (FindDevices sim_wire (\<lambda>s. 0) (bus_of (take 3 sensors), startup))))
       = found (snd (FindDevices sim_wire (\<lambda>s. 0) (bus_of (take 3 sensors), startup)))"
proof -
  have 1: "devices (bus_of (take 3 sensors)) = take 3 sensors"
    by (simp add: bus_of_def)
  have 2: "distinct (take 3 sensors)" "length (take 3 sensors) \<le> 5"
    using sensors_distinct by simp_all
  have 3: "\<forall>d \<in> set (take 3 sensors). length d = 8 \<and> dallas_crc8 d 8 = 0"
    using sensors_valid by (meson in_set_takeD)
  from FindDevices_discovers_all [OF 1 2 3 startup_ROM] show ?thesis
    using sensors_distinct(2) by simp
qed

text \<open>
  C1 as stated (every set of distinct identifiers) fails: an identifier is entered in the
  table only when its CRC-8 is the byte that \<open>Next\<close> compares it with. Whatever that byte
  is, of these two buses with one device each, whose identifiers have different CRC-8
  values, one is left with an empty table.
\<close>

theorem FindDevices_bad_crc_counterexample:
  "\<forall>v. found (snd (FindDevices sim_wire (\<lambda>s. v) (bus_of [[0x28, 1, 0, 0, 0, 0, 0, 0x29]], startup))) = []
      \<or> found (snd (FindDevices sim_wire (\<lambda>s. v) (bus_of [[0x28, 1, 0, 0, 0, 0, 0, 0]], startup))) = []"
proof
  fix v
  have "dallas_crc8 [0x28, 1, 0, 0, 0, 0, 0, 0x29] 8 \<noteq> dallas_crc8 [0x28, 1, 0, 0, 0, 0, 0, 0] 8"
    by code_simp
  then show "found (snd (FindDevices sim_wire (\<lambda>s. v) (bus_of [[0x28, 1, 0, 0, 0, 0, 0, 0x29]], startup))) = []
      \<or> found (snd (FindDevices sim_wire (\<lambda>s. v) (bus_of [[0x28, 1, 0, 0, 0, 0, 0, 0]], startup))) = []"
    by (auto simp: FindDevices_single startup_ROM)
qed

subsection \<open>The byte after ROM\<close>

text \<open>
  C3: an identifier has 8 bytes and \<open>ROM\<close> is declared \<open>uint8_t ROM[8]\<close>; the byte that \<open>Next\<close>
  compares the CRC-8 of \<open>ROM[0]\<close> to \<open>ROM[7]\<close> with is \<open>ROM[8]\<close>, outside the array. With one
  device \<open>d\<close> on the simulated bus and the value \<open>v\<close> in that byte, the first pass resolves all
  64 bits and leaves \<open>d\<close> in \<open>ROM\<close>; it returns 1 when the CRC-8 of the 8 bytes of \<open>d\<close> is \<open>v\<close>
  and 0 otherwise, and it leaves \<open>lastDiscrep\<close> at 0. So the same device, whose own CRC byte
  is right, is accepted or refused according to a byte that is no part of its identifier.
\<close>

theorem First_byte_after_ROM:
  assumes "length d = 8" "length (ROM s) = 8"
  shows "fst (First sim_wire (\<lambda>s. v) (bus_of [d], s)) = (if dallas_crc8 d 8 = v then 1 else 0)
     \<and> ROM (snd (snd (First sim_wire (\<lambda>s. v) (bus_of [d], s)))) = d
     \<and> lastDiscrep (snd (snd (First sim_wire (\<lambda>s. v) (bus_of [d], s)))) = 0"
proof -
  have 1: "devices (bus_of [d]) = [d]" by (simp add: bus_of_def)
  have so: "search_order [d] = [d]" by (rule search_order_single [OF assms(1)])
  have "length (search_order [d]) = 1" unfolding so by simp
  then have "marker_at [d] 0 = 0"
    using marker_at_last [of "[d]" 0] assms(1) by (simp del: length_search_order)
  with First_pass [OF 1 _ _ assms(2), of "\<lambda>s. v"] assms(1) so
  show ?thesis by (auto simp: unat_eq_0)
qed

theorem First_byte_after_ROM_witness:
  "fst (First sim_wire (\<lambda>s. 0) (bus_of [sensors ! 0], startup)) = 1
   \<and> fst (First sim_wire (\<lambda>s. 1) (bus_of [sensors ! 0], startup)) = 0"
proof -
  have l: "length (sensors ! 0) = 8" by (simp add: sensors_def)
  have c: "dallas_crc8 (sensors ! 0) 8 = 0"
    using sensors_valid by (simp add: sensors_def)
  from First_byte_after_ROM [OF l startup_ROM, of 0] First_byte_after_ROM [OF l startup_ROM, of 1] c
  show ?thesis by simp
qed

subsection \<open>More devices than rows\<close>

lemma found_last:
  assumes "0 \<le> numROMs s"
  shows "FoundROM s (numROMs s) \<in> set (found s)"
  using assms by (simp add: found_def)

text \<open>
  C4 fails: on a bus with six devices that pass the test of \<open>Next\<close>, \<open>FindDevices\<close> stores six
  identifiers. The sixth is written to \<open>FoundROM[5]\<close>, outside the rows 0 to 4 of
  \<open>uint8_t FoundROM[5][8]\<close>, and \<open>numROMs\<close> is left at 5: the test \<open>numROMs < 5\<close> of the loop
  lets a pass begin with \<open>numROMs = 4\<close>, and the pass stores after \<open>numROMs++\<close>. Row 5 held
  no identifier of the bus before the call.
\<close>

theorem FindDevices_six_devices:
  "numROMs (snd (FindDevices sim_wire (\<lambda>s. 0) (bus_of sensors, startup))) = 5
   \<and> length (found (snd (FindDevices sim_wire (\<lambda>s. 0) (bus_of sensors, startup)))) = 6
   \<and> set (found (snd (FindDevices sim_wire (\<lambda>s. 0) (bus_of sensors, startup)))) = set sensors
   \<and> FoundROM (snd (FindDevices sim_wire (\<lambda>s. 0) (bus_of sensors, startup))) 5 \<in> set sensors
   \<and> FoundROM startup 5 \<notin> set sensors"
proof -
  have len: "\<forall>d \<in> set sensors. length d = 8" and crc: "\<forall>d \<in> set sensors. dallas_crc8 d 8 = 0"
    using sensors_valid by simp_all
  note so = search_order_short [OF len sensors_distinct(1)]
  from FindDevices_sim [OF _ len crc startup_ROM, of "bus_of sensors"]
  obtain b' s' where 1: "FindDevices sim_wire (\<lambda>s. 0) (bus_of sensors, startup) = (b', s')"
    "found s' = take 6 (search_order sensors)"
    "numROMs s' = min (int (length (search_order sensors)) - 1) 5"
    by (auto simp: bus_of_def)
  have n: "numROMs s' = 5"
    unfolding 1(3) so(1) sensors_distinct(2) by simp
  have f: "found s' = search_order sensors"
    unfolding 1(2) using so(1) sensors_distinct(2) by (simp del: length_search_order)
  have "FoundROM s' 5 \<in> set (found s')"
    using found_last [of s'] n by simp
  moreover have "FoundROM startup 5 \<notin> set sensors"
  proof -
    have "hd (FoundROM startup 5) = 0" by (simp add: startup_def numeral_eq_Suc)
    moreover have "\<forall>d \<in> set sensors. hd d = 0x28" by (simp add: sensors_def)
    ultimately show ?thesis by fastforce
  qed
  ultimately show ?thesis
    using n f so sensors_distinct(2) unfolding 1(1) by (simp del: length_search_order)
qed

text \<open>On every line \<open>numROMs\<close> ends at 5 at most: row 5 is the only one written outside the table.\<close>

lemma FindDevices_loop_bound:
  "numROMs (snd p) < 5 \<Longrightarrow> numROMs (snd (FindDevices_loop W ROM8 p)) \<le> 5"
proof (induction W ROM8 p rule: FindDevices_loop.induct)
  case (1 W ROM8 p)
  obtain b s where p: "p = (b, s)" by (cases p)
  obtain nxt b' s' where N: "Next W ROM8 (b, store_ROM s) = (nxt, b', s')"
    by (cases "Next W ROM8 (b, store_ROM s)")
  have "numROMs (snd (snd (Next W ROM8 (b, store_ROM s)))) = numROMs (store_ROM s)"
    by (simp add: Next_def Let_def split_beta)
  then have "numROMs s' = numROMs (store_ROM s)"
    unfolding N by simp
  then have n: "numROMs s' = numROMs s + 1"
    by (simp add: store_ROM_def Let_def)
  show ?case
  proof (cases "nxt \<noteq> 0 \<and> numROMs s' < 5")
    case True
    then have "FindDevices_loop W ROM8 p = FindDevices_loop W ROM8 (b', s')"
      by (simp add: FindDevices_loop.simps [of _ _ "(b, s)"] p N)
    moreover have "numROMs (snd (FindDevices_loop W ROM8 (b', s'))) \<le> 5"
      using True by (intro "1.IH" [OF refl p [symmetric] refl refl N [symmetric] refl]) simp_all
    ultimately show ?thesis by simp
  next
    case False
    then have "FindDevices_loop W ROM8 p = (b', s')"
      by (auto simp: FindDevices_loop.simps [of _ _ "(b, s)"] p N)
    with n "1.prems" p show ?thesis by simp
  qed
qed

lemma FindDevices_numROMs_le_5: "numROMs (snd (FindDevices W ROM8 p)) \<le> 5"
proof -
  obtain b s where p: "p = (b, s)" by (cases p)
  obtain rp b1 where rp: "reset_pulse W b = (rp, b1)" by (cases "reset_pulse W b")
  obtain fnd b2 s2 where F: "First W ROM8 (b1, s\<lparr>numROMs := - 1\<rparr>) = (fnd, b2, s2)"
    by (cases "First W ROM8 (b1, s\<lparr>numROMs := - 1\<rparr>)")
  have "numROMs (snd (snd (First W ROM8 (b1, s\<lparr>numROMs := - 1\<rparr>)))) = - 1"
    by (simp add: First_def Next_def Let_def split_beta)
  then have n2: "numROMs s2 = - 1" unfolding F by simp
  then have "numROMs (snd (FindDevices_loop W ROM8 (b2, s2))) \<le> 5"
    by (intro FindDevices_loop_bound) simp
  with n2 show ?thesis
    by (simp add: FindDevices_def p rp F Let_def)
qed

subsection \<open>The CRC-8 of identifiers that differ in the last byte\<close>







subsection \<open>Two identifiers that differ in the last bit\<close>












end
